theory Spec2Isabelle
  imports
    Main
    "HOL-Library.Multiset"
    "HOL-Library.Word"
    "HOL-Library.Char_ord"
    "HOL-Library.List_Lexorder"
begin

section \<open>The blocking-call analyser of using-asyncio-python/scripts/check_blocking.py\<close>

subsection \<open>Syntax trees\<close>

text \<open>
  The analyser reads the trees of Python's \<^verbatim>\<open>ast\<close> module. It looks inside four kinds
  of node only: \<^verbatim>\<open>Call\<close> (its \<^verbatim>\<open>func\<close>), \<^verbatim>\<open>Name\<close> (its \<^verbatim>\<open>id\<close>), \<^verbatim>\<open>Attribute\<close> (its
  \<^verbatim>\<open>value\<close> and \<^verbatim>\<open>attr\<close>) and the three definition nodes \<^verbatim>\<open>FunctionDef\<close>,
  \<^verbatim>\<open>AsyncFunctionDef\<close> and \<^verbatim>\<open>ClassDef\<close> (their class, and the \<^verbatim>\<open>name\<close> of an async
  definition). Every other node class is \<open>Other\<close>: only its child nodes matter.
  A definition node carries all its child nodes in field order (arguments, body,
  decorators, ...); a call carries its callee and then its arguments and keywords.
  The shared context and operator tokens (\<^verbatim>\<open>Load\<close>, \<^verbatim>\<open>Add\<close>, ...) are left out: they have
  no children and no rule of the registry matches them.
\<close>

datatype node =
    is_Call: Call (lineno: int) (col_offset: int) (func: node) (call_args: "node list")
  | is_Name: Name (lineno: int) (col_offset: int) (name_id: string)
  | is_Attribute: Attribute (lineno: int) (col_offset: int) (attr_value: node) (attr: string)
  | is_FunctionDef: FunctionDef (lineno: int) (col_offset: int) (name: string) (children: "node list")
  | is_AsyncFunctionDef: AsyncFunctionDef (lineno: int) (col_offset: int) (name: string) (children: "node list")
  | is_ClassDef: ClassDef (lineno: int) (col_offset: int) (name: string) (children: "node list")
  | is_Other: Other (children: "node list")

text \<open>\<^verbatim>\<open>ast.iter_child_nodes\<close>: the direct child nodes, in field order.\<close>

fun child_nodes :: "node \<Rightarrow> node list" where
  "child_nodes (Call _ _ f as) = f # as"
| "child_nodes (Name _ _ _) = []"
| "child_nodes (Attribute _ _ v _) = [v]"
| "child_nodes (FunctionDef _ _ _ cs) = cs"
| "child_nodes (AsyncFunctionDef _ _ _ cs) = cs"
| "child_nodes (ClassDef _ _ _ cs) = cs"
| "child_nodes (Other cs) = cs"

text \<open>
  The analyser tells nodes apart by object identity (\<^verbatim>\<open>id(node)\<close>). The parser builds one
  object per syntactic position, so the identity of a node is modelled by its address:
  the list of child indices leading to it from the root of the module. An object is a
  node together with its address.
\<close>

type_synonym addr = "nat list"
type_synonym obj = "addr \<times> node"

definition iter_child_nodes :: "obj \<Rightarrow> obj list" where
  "iter_child_nodes = (\<lambda>(a, n). map (\<lambda>(i, c). (a @ [i], c)) (enumerate 0 (child_nodes n)))"

lemma sum_list_Suc_size: "sum_list (map (\<lambda>c. Suc (size c)) xs) = size_list size xs"
  by (induction xs) auto

lemma child_nodes_size: "sum_list (map (\<lambda>c. Suc (size c)) (child_nodes n)) < Suc (size n)"
  by (cases n) (auto simp: sum_list_Suc_size)

lemma size_iter_child_nodes:
  "sum_list (map (\<lambda>x. Suc (size (snd x))) (iter_child_nodes (a, n)))
     = sum_list (map (\<lambda>c. Suc (size c)) (child_nodes n))"
proof -
  have "map (\<lambda>x. Suc (size (snd x))) (map (\<lambda>(i, c). (a @ [i], c)) (enumerate k cs))
          = map (\<lambda>c. Suc (size c)) cs"
    for k and cs :: "node list"
    by (induction cs arbitrary: k) auto
  then show ?thesis by (simp add: iter_child_nodes_def)
qed

lemma child_node_smaller: "c \<in> set (child_nodes n) \<Longrightarrow> size c < size n"
proof -
  assume "c \<in> set (child_nodes n)"
  then have "Suc (size c) \<le> sum_list (map (\<lambda>c. Suc (size c)) (child_nodes n))"
    by (induction "child_nodes n" arbitrary: c) (auto simp: member_le_sum_list)
  then show ?thesis using child_nodes_size [of n] by simp
qed

text \<open>
  \<^verbatim>\<open>ast.walk\<close> of the standard library, as CPython implements it: a queue that starts with the node; the node at
  the front is removed, its child nodes are appended at the back, and it is yielded.
  The order is breadth first.
\<close>

function walk_q :: "obj list \<Rightarrow> obj list" where
  "walk_q [] = []"
| "walk_q (x # todo) = x # walk_q (todo @ iter_child_nodes x)"
  by pat_completeness auto
termination
proof (relation "measure (\<lambda>q. sum_list (map (\<lambda>x. Suc (size (snd x))) q))")
  show "wf (measure (\<lambda>q. sum_list (map (\<lambda>x. Suc (size (snd x))) q)))" by simp
next
  fix x :: obj and todo :: "obj list"
  obtain a n where x: "x = (a, n)" by (cases x)
  show "(todo @ iter_child_nodes x, x # todo) \<in> measure (\<lambda>q. sum_list (map (\<lambda>x. Suc (size (snd x))) q))"
    using child_nodes_size [of n] by (simp add: x size_iter_child_nodes)
qed

definition walk :: "obj \<Rightarrow> obj list" where
  "walk x = walk_q [x]"

subsection \<open>Rules\<close>

text \<open>\<^verbatim>\<open>_call_matches(node, *name_parts)\<close>: the call's callee is the dotted name.\<close>

definition call_matches :: "node \<Rightarrow> string list \<Rightarrow> bool" where
  "call_matches node name_parts =
     (if \<not> is_Call node then False
      else let f = func node in
        if length name_parts = 1 \<and> is_Name f then name_id f = name_parts ! 0
        else if length name_parts = 2 \<and> is_Attribute f then
          (let obj = attr_value f
           in is_Name obj \<and> name_id obj = name_parts ! 0 \<and> attr f = name_parts ! 1)
        else False)"

definition is_sync_open :: "node \<Rightarrow> bool" where
  "is_sync_open node = call_matches node [''open'']"

definition is_file_rw :: "node \<Rightarrow> bool" where
  "is_file_rw node =
     (if \<not> is_Call node then False
      else let f = func node
        in is_Attribute f \<and> attr f \<in> {''read'', ''write'', ''readlines''})"

record Rule =
  id_rule :: string
  description :: string
  fix_hint :: string
  matcher :: "node \<Rightarrow> bool"

definition RULES :: "Rule list" where
  "RULES = [
     \<lparr>id_rule = ''ASYNC001'',
      description = ''requests.get() blocks the event loop'',
      fix_hint = ''Use aiohttp.ClientSession().get() or httpx.AsyncClient().get()'',
      matcher = (\<lambda>n. call_matches n [''requests'', ''get''])\<rparr>,
     \<lparr>id_rule = ''ASYNC002'',
      description = ''requests.post() blocks the event loop'',
      fix_hint = ''Use aiohttp.ClientSession().post() or httpx.AsyncClient().post()'',
      matcher = (\<lambda>n. call_matches n [''requests'', ''post''])\<rparr>,
     \<lparr>id_rule = ''ASYNC003'',
      description = ''requests.put() blocks the event loop'',
      fix_hint = ''Use aiohttp.ClientSession().put() or httpx.AsyncClient().put()'',
      matcher = (\<lambda>n. call_matches n [''requests'', ''put''])\<rparr>,
     \<lparr>id_rule = ''ASYNC004'',
      description = ''requests.delete() blocks the event loop'',
      fix_hint = ''Use aiohttp.ClientSession().delete() or httpx.AsyncClient().delete()'',
      matcher = (\<lambda>n. call_matches n [''requests'', ''delete''])\<rparr>,
     \<lparr>id_rule = ''ASYNC005'',
      description = ''time.sleep() blocks the event loop'',
      fix_hint = ''Use 'await asyncio.sleep(seconds)' instead'',
      matcher = (\<lambda>n. call_matches n [''time'', ''sleep''])\<rparr>,
     \<lparr>id_rule = ''ASYNC006'',
      description = ''open() is a synchronous file operation'',
      fix_hint = ''Use 'async with aiofiles.open(...)' from the aiofiles package'',
      matcher = is_sync_open\<rparr>,
     \<lparr>id_rule = ''ASYNC007'',
      description = ''subprocess.run() blocks the event loop'',
      fix_hint = ''Use 'await asyncio.create_subprocess_exec()' or asyncio.create_subprocess_shell()'',
      matcher = (\<lambda>n. call_matches n [''subprocess'', ''run''])\<rparr>,
     \<lparr>id_rule = ''ASYNC008'',
      description = ''subprocess.call() blocks the event loop'',
      fix_hint = ''Use 'await asyncio.create_subprocess_exec()' instead'',
      matcher = (\<lambda>n. call_matches n [''subprocess'', ''call''])\<rparr>,
     \<lparr>id_rule = ''ASYNC009'',
      description = ''.read()/.write()/.readlines() on a synchronous file handle'',
      fix_hint = ''Open the file with aiofiles and use 'await file.read()' / 'await file.write()''
                   @ [CHR 0x27],
      matcher = is_file_rw\<rparr>]"

subsection \<open>Findings and the analysis of one tree\<close>

record 'p Finding =
  file_path :: 'p
  line :: int
  col :: int
  async_func :: string
  rule :: Rule

text \<open>\<^verbatim>\<open>_collect_async_funcs\<close>: the async definitions of the tree, in the order of the walk.\<close>

definition collect_async_funcs :: "obj \<Rightarrow> obj list" where
  "collect_async_funcs tree = filter (\<lambda>x. is_AsyncFunctionDef (snd x)) (walk tree)"

text \<open>
  \<^verbatim>\<open>_nodes_inside_sync_context\<close>: both loops of the source, the set \<^verbatim>\<open>excluded\<close> threaded
  through them.
\<close>

definition nodes_inside_sync_context :: "obj \<Rightarrow> addr set" where
  "nodes_inside_sync_context func_node =
     fold (\<lambda>x excluded.
             if is_FunctionDef (snd x) \<or> is_ClassDef (snd x)
             then fold (\<lambda>child excluded. insert (fst child) excluded) (walk x) excluded
             else excluded)
          (walk func_node) {}"

text \<open>
  The three nested loops of \<^verbatim>\<open>check_file\<close>, innermost first: over the rules for one
  node, over the nodes of one async function, over the async functions of the tree.
  The list \<^verbatim>\<open>findings\<close> is threaded through them; the registry is a parameter.
\<close>

definition scan_node :: "Rule list \<Rightarrow> 'p \<Rightarrow> obj \<Rightarrow> obj \<Rightarrow> 'p Finding list \<Rightarrow> 'p Finding list" where
  "scan_node rules path async_fn x findings =
     fold (\<lambda>r findings.
             if matcher r (snd x)
             then findings @ [\<lparr>file_path = path, line = lineno (snd x), col = col_offset (snd x),
                               async_func = name (snd async_fn), rule = r\<rparr>]
             else findings)
          rules findings"

definition scan_func :: "Rule list \<Rightarrow> 'p \<Rightarrow> obj \<Rightarrow> 'p Finding list \<Rightarrow> 'p Finding list" where
  "scan_func rules path async_fn findings =
     (let excluded = nodes_inside_sync_context async_fn
      in fold (\<lambda>x findings.
                 if fst x \<in> excluded then findings
                 else scan_node rules path async_fn x findings)
              (walk async_fn) findings)"

definition check_tree :: "Rule list \<Rightarrow> 'p \<Rightarrow> node \<Rightarrow> 'p Finding list" where
  "check_tree rules path tree =
     fold (scan_func rules path) (collect_async_funcs ([], tree)) []"

text \<open>
  Every rule of the registry matches calls only, so with the registry the position read
  for a finding is always that of a \<^verbatim>\<open>Call\<close> node, which has one.
\<close>

lemma RULES_match_calls_only: "r \<in> set RULES \<Longrightarrow> matcher r n \<Longrightarrow> is_Call n"
  by (auto simp: RULES_def call_matches_def is_sync_open_def is_file_rw_def split: if_splits)

subsection \<open>Reading and parsing a file\<close>

text \<open>
  The exceptions the program can meet. \<^verbatim>\<open>check_file\<close> catches \<^verbatim>\<open>OSError\<close> around the read
  and \<^verbatim>\<open>SyntaxError\<close> around the parse; any other exception leaves \<^verbatim>\<open>check_file\<close> and
  \<^verbatim>\<open>main\<close>.
\<close>

datatype exn =
    OSError string
  | SyntaxError string
  | UnicodeDecodeError
  | StopIteration
  | OtherError string

type_synonym byte = "8 word"

text \<open>Python text is a sequence of code points.\<close>

type_synonym source_text = "nat list"

text \<open>The \<^verbatim>\<open>errors\<close> argument of a decoder.\<close>

datatype errors = Strict | Replace

text \<open>
  The UTF-8 decoder of the Python runtime (library code, not code of the repository),
  which \<^verbatim>\<open>read_text(encoding="utf-8", ...)\<close> runs over the bytes of the file. \<open>utf8_step\<close> decodes the character at the front
  of the input, or finds the front ill-formed; it returns the input still to be decoded.
  An ill-formed front is the longest prefix that could have started a character: a byte
  that cannot start one, a lead byte with the good continuation bytes that follow it, or
  all that is left of an input that ends inside a character.
\<close>

definition is_cont :: "byte \<Rightarrow> bool" where
  "is_cont b = (0x80 \<le> b \<and> b \<le> 0xBF)"

definition second_ok :: "byte \<Rightarrow> byte \<Rightarrow> bool" where
  "second_ok b b1 =
     (if b = 0xE0 then 0xA0 \<le> b1 \<and> b1 \<le> 0xBF
      else if b = 0xED then 0x80 \<le> b1 \<and> b1 \<le> 0x9F
      else if b = 0xF0 then 0x90 \<le> b1 \<and> b1 \<le> 0xBF
      else if b = 0xF4 then 0x80 \<le> b1 \<and> b1 \<le> 0x8F
      else is_cont b1)"

definition cont_bits :: "byte \<Rightarrow> nat" where
  "cont_bits b = unat b - 0x80"

fun utf8_step :: "byte list \<Rightarrow> nat option \<times> byte list" where
  "utf8_step [] = (None, [])"
| "utf8_step (b # bs) =
     (if b < 0x80 then (Some (unat b), bs)
      else if 0xC2 \<le> b \<and> b \<le> 0xDF then
        (case bs of
           [] \<Rightarrow> (None, [])
         | b1 # r1 \<Rightarrow>
             if is_cont b1 then (Some ((unat b - 0xC0) * 64 + cont_bits b1), r1)
             else (None, bs))
      else if 0xE0 \<le> b \<and> b \<le> 0xEF then
        (case bs of
           [] \<Rightarrow> (None, [])
         | b1 # r1 \<Rightarrow>
             if \<not> second_ok b b1 then (None, bs)
             else (case r1 of
                [] \<Rightarrow> (None, [])
              | b2 # r2 \<Rightarrow>
                  if is_cont b2
                  then (Some (((unat b - 0xE0) * 64 + cont_bits b1) * 64 + cont_bits b2), r2)
                  else (None, r1)))
      else if 0xF0 \<le> b \<and> b \<le> 0xF4 then
        (case bs of
           [] \<Rightarrow> (None, [])
         | b1 # r1 \<Rightarrow>
             if \<not> second_ok b b1 then (None, bs)
             else (case r1 of
                [] \<Rightarrow> (None, [])
              | b2 # r2 \<Rightarrow>
                  if \<not> is_cont b2 then (None, r1)
                  else (case r2 of
                     [] \<Rightarrow> (None, [])
                   | b3 # r3 \<Rightarrow>
                       if is_cont b3
                       then (Some ((((unat b - 0xF0) * 64 + cont_bits b1) * 64 + cont_bits b2) * 64
                                    + cont_bits b3), r3)
                       else (None, r2))))
      else (None, bs))"

lemma utf8_step_shorter: "length (snd (utf8_step (b # bs))) \<le> length bs"
  by (auto split: list.splits)

declare utf8_step.simps [simp del]

lemma utf8_step_rest: "(c, rest) = utf8_step (b # bs) \<Longrightarrow> length rest \<le> length bs"
  using utf8_step_shorter [of b bs] by (metis snd_conv)

text \<open>
  Decoding a whole input. With \<^verbatim>\<open>errors="strict"\<close> an ill-formed front raises
  \<^verbatim>\<open>UnicodeDecodeError\<close>; with \<^verbatim>\<open>errors="replace"\<close> it becomes U+FFFD and decoding goes on.
\<close>

function utf8_decode :: "errors \<Rightarrow> byte list \<Rightarrow> exn + source_text" where
  "utf8_decode errs [] = Inr []"
| "utf8_decode errs (b # bs) =
     (case utf8_step (b # bs) of
        (Some c, rest) \<Rightarrow>
          (case utf8_decode errs rest of Inl e \<Rightarrow> Inl e | Inr t \<Rightarrow> Inr (c # t))
      | (None, rest) \<Rightarrow>
          (case errs of
             Strict \<Rightarrow> Inl UnicodeDecodeError
           | Replace \<Rightarrow>
               (case utf8_decode errs rest of Inl e \<Rightarrow> Inl e | Inr t \<Rightarrow> Inr (0xFFFD # t))))"
  by pat_completeness auto
termination
  by (relation "measure (\<lambda>(errs, bs). length bs)")
    (auto dest: utf8_step_rest simp: less_Suc_eq_le)

text \<open>Text mode translates the line endings \<^verbatim>\<open>\r\n\<close> and \<^verbatim>\<open>\r\<close> to \<^verbatim>\<open>\n\<close>.\<close>

fun universal_newlines :: "source_text \<Rightarrow> source_text" where
  "universal_newlines [] = []"
| "universal_newlines [c] = [if c = 13 then 10 else c]"
| "universal_newlines (c # d # cs) =
     (if c = 13 then (if d = 10 then 10 # universal_newlines cs else 10 # universal_newlines (d # cs))
      else c # universal_newlines (d # cs))"

text \<open>
  What the program asks of its surroundings: the file system behind \<^verbatim>\<open>pathlib.Path\<close>
  (a path type with its order, \<^verbatim>\<open>is_file\<close>, \<^verbatim>\<open>is_dir\<close>, \<^verbatim>\<open>suffix\<close>, \<^verbatim>\<open>rglob\<close>, \<^verbatim>\<open>str\<close>,
  and the bytes of a file or the message of the \<^verbatim>\<open>OSError\<close> that reading it raises) and
  the parser \<^verbatim>\<open>ast.parse(source, filename)\<close>.
\<close>

record 'p world =
  is_file :: "'p \<Rightarrow> bool"
  is_dir :: "'p \<Rightarrow> bool"
  suffix :: "'p \<Rightarrow> string"
  rglob :: "'p \<Rightarrow> string \<Rightarrow> 'p list"
  str_path :: "'p \<Rightarrow> string"
  read_bytes :: "'p \<Rightarrow> string + byte list"
  ast_parse :: "source_text \<Rightarrow> string \<Rightarrow> exn + node"

text \<open>\<^verbatim>\<open>path.read_text(encoding="utf-8", errors=...)\<close>.\<close>

definition read_text :: "'p world \<Rightarrow> 'p \<Rightarrow> errors \<Rightarrow> exn + source_text" where
  "read_text w path errs =
     (case read_bytes w path of
        Inl msg \<Rightarrow> Inl (OSError msg)
      | Inr bs \<Rightarrow>
          (case utf8_decode errs bs of
             Inl e \<Rightarrow> Inl e
           | Inr t \<Rightarrow> Inr (universal_newlines t)))"

text \<open>
  \<^verbatim>\<open>check_file\<close>: the findings of the file and the lines written to standard error, or
  the exception that leaves the function.
\<close>

definition check_file :: "'p world \<Rightarrow> 'p \<Rightarrow> exn + 'p Finding list \<times> string list" where
  "check_file w path =
     (case read_text w path Replace of
        Inl (OSError exc) \<Rightarrow>
          Inr ([], [''ERROR: Cannot read '' @ str_path w path @ '': '' @ exc])
      | Inl e \<Rightarrow> Inl e
      | Inr source \<Rightarrow>
          (case ast_parse w source (str_path w path) of
             Inl (SyntaxError exc) \<Rightarrow>
               Inr ([], [''ERROR: Syntax error in '' @ str_path w path @ '': '' @ exc])
           | Inl e \<Rightarrow> Inl e
           | Inr tree \<Rightarrow> Inr (check_tree RULES path tree, [])))"

text \<open>
  \<^verbatim>\<open>iter_python_files\<close>: the files yielded and the lines written to standard error.
  The dash of the warning is U+2014, here in UTF-8.
\<close>

definition iter_python_files :: "('p::linorder) world \<Rightarrow> 'p \<Rightarrow> 'p list \<times> string list" where
  "iter_python_files w path =
     (if is_file w path then
        (if suffix w path = ''.py'' then ([path], []) else ([], []))
      else if is_dir w path then (sort (rglob w path ''*.py''), [])
      else ([], [''WARNING: '' @ str_path w path @ '' is not a file or directory ''
                   @ [CHR 0xE2, CHR 0x80, CHR 0x94] @ '' skipping.'']))"

subsection \<open>Reporting\<close>

text \<open>\<^verbatim>\<open>str\<close> of an integer.\<close>

fun str_nat :: "nat \<Rightarrow> string" where
  "str_nat n = (if n < 10 then [char_of (48 + n)]
                else str_nat (n div 10) @ [char_of (48 + n mod 10)])"

declare str_nat.simps [simp del]

definition str_int :: "int \<Rightarrow> string" where
  "str_int i = (if i < 0 then CHR ''-'' # str_nat (nat (- i)) else str_nat (nat i))"

text \<open>\<^verbatim>\<open>print_findings\<close>: the lines printed, two for each finding.\<close>

definition diagnostic_line :: "'p world \<Rightarrow> 'p Finding \<Rightarrow> string" where
  "diagnostic_line w f =
     str_path w (file_path f) @ '':'' @ str_int (line f) @ '':'' @ str_int (col f)
       @ '': ['' @ id_rule (rule f) @ ''] ''
       @ ''In '' @ [CHR 0x27] @ ''async def '' @ async_func f @ [CHR 0x27] @ '': ''
       @ description (rule f)"

definition fix_line :: "'p Finding \<Rightarrow> string" where
  "fix_line f = ''  Fix: '' @ fix_hint (rule f)"

fun print_findings :: "'p world \<Rightarrow> 'p Finding list \<Rightarrow> string list" where
  "print_findings w [] = []"
| "print_findings w (f # findings) = diagnostic_line w f # fix_line f # print_findings w findings"

text \<open>
  \<^verbatim>\<open>collections.Counter\<close> of a list, as the list of its items; the program sorts the
  items, whose keys are distinct, so their order here does not matter.
\<close>

definition counter :: "'a list \<Rightarrow> ('a \<times> nat) list" where
  "counter xs = map (\<lambda>k. (k, count_list xs k)) (remdups xs)"

text \<open>The format \<^verbatim>\<open>{count:3d}\<close>.\<close>

definition pad3 :: "string \<Rightarrow> string" where
  "pad3 s = replicate (3 - length s) CHR '' '' @ s"

fun by_rule_lines :: "(string \<times> nat) list \<Rightarrow> exn + string list" where
  "by_rule_lines [] = Inr []"
| "by_rule_lines ((rule_id, cnt) # items) =
     (case find (\<lambda>r. id_rule r = rule_id) RULES of
        None \<Rightarrow> Inl StopIteration
      | Some r \<Rightarrow>
          (case by_rule_lines items of
             Inl e \<Rightarrow> Inl e
           | Inr ls \<Rightarrow>
               Inr ((''  '' @ rule_id @ '': '' @ str_int (int cnt) @ ''x  ('' @ description r @ '')'')
                    # ls)))"

definition print_summary :: "'p world \<Rightarrow> 'p Finding list \<Rightarrow> exn + string list" where
  "print_summary w all_findings =
     (if all_findings = [] then Inr [CHR 0x0A # ''Summary: No blocking call issues found.'']
      else
        let by_rule = counter (map (\<lambda>f. id_rule (rule f)) all_findings);
            by_file = counter (map (\<lambda>f. str_path w (file_path f)) all_findings)
        in case by_rule_lines (sort_key fst by_rule) of
             Inl e \<Rightarrow> Inl e
           | Inr rule_lines \<Rightarrow>
               Inr ([CHR 0x0A # ''--- Summary ---'',
                     ''Total issues: '' @ str_int (int (length all_findings)),
                     CHR 0x0A # ''By rule:'']
                    @ rule_lines
                    @ [CHR 0x0A # ''By file:'']
                    @ map (\<lambda>(filepath, cnt). ''  '' @ pad3 (str_int (int cnt)) @ ''  '' @ filepath)
                        (sort_key fst by_file)))"

subsection \<open>The entry point\<close>

record 'p args =
  paths :: "'p list"
  exit_zero :: bool
  summary :: bool

text \<open>The state of a run: the list \<^verbatim>\<open>all_findings\<close> and what was printed so far.\<close>

record 'p run =
  all_findings :: "'p Finding list"
  stdout :: "string list"
  stderr :: "string list"

text \<open>The inner loop of \<^verbatim>\<open>main\<close>, over the files one path gives.\<close>

fun files_loop :: "'p world \<Rightarrow> 'p list \<Rightarrow> 'p run \<Rightarrow> exn + 'p run" where
  "files_loop w [] st = Inr st"
| "files_loop w (py_file # rest) st =
     (case check_file w py_file of
        Inl e \<Rightarrow> Inl e
      | Inr (findings, errs) \<Rightarrow>
          files_loop w rest
            (st\<lparr>all_findings := all_findings st @ findings,
                stdout := stdout st @ print_findings w findings,
                stderr := stderr st @ errs\<rparr>))"

text \<open>The outer loop, over the paths of the command line.\<close>

fun paths_loop :: "('p::linorder) world \<Rightarrow> 'p list \<Rightarrow> 'p run \<Rightarrow> exn + 'p run" where
  "paths_loop w [] st = Inr st"
| "paths_loop w (raw_path # rest) st =
     (case iter_python_files w raw_path of
        (files, warnings) \<Rightarrow>
          (case files_loop w files (st\<lparr>stderr := stderr st @ warnings\<rparr>) of
             Inl e \<Rightarrow> Inl e
           | Inr st' \<Rightarrow> paths_loop w rest st'))"

text \<open>
  \<^verbatim>\<open>main\<close> once the arguments are parsed: the exit status (1 from \<^verbatim>\<open>sys.exit(1)\<close>, 0 when
  the function returns) and the final state, or the exception that leaves it.
\<close>

definition main :: "('p::linorder) world \<Rightarrow> 'p args \<Rightarrow> exn + int \<times> 'p run" where
  "main w args =
     (case paths_loop w (paths args) \<lparr>all_findings = [], stdout = [], stderr = []\<rparr> of
        Inl e \<Rightarrow> Inl e
      | Inr st \<Rightarrow>
          (case (if summary args then print_summary w (all_findings st) else Inr []) of
             Inl e \<Rightarrow> Inl e
           | Inr summary_lines \<Rightarrow>
               let st1 = st\<lparr>stdout := stdout st @ summary_lines\<rparr>;
                   st2 = (if all_findings st1 = []
                          then st1\<lparr>stdout := stdout st1 @ [''No blocking call issues detected.'']\<rparr>
                          else st1)
               in Inr (if all_findings st2 \<noteq> [] \<and> \<not> exit_zero args then 1 else 0, st2)))"

subsection \<open>Positions in a tree\<close>

text \<open>
  \<open>subtree_at t p\<close> is the node reached from \<open>t\<close> along the child indices \<open>p\<close>, if there
  is one. \<open>crosses_sync_def t p\<close> says that some node on that way, \<open>t\<close> and the node
  reached included, is a synchronous function definition or a class definition: the node
  reached lies inside (or is) such a definition.
\<close>

fun subtree_at :: "node \<Rightarrow> addr \<Rightarrow> node option" where
  "subtree_at t [] = Some t"
| "subtree_at t (i # p) =
     (if i < length (child_nodes t) then subtree_at (child_nodes t ! i) p else None)"

fun crosses_sync_def :: "node \<Rightarrow> addr \<Rightarrow> bool" where
  "crosses_sync_def t [] = (is_FunctionDef t \<or> is_ClassDef t)"
| "crosses_sync_def t (i # p) =
     (is_FunctionDef t \<or> is_ClassDef t
      \<or> (i < length (child_nodes t) \<and> crosses_sync_def (child_nodes t ! i) p))"

text \<open>The objects of the subtree of an object: every node below it, with its address.\<close>

definition objs_of :: "obj \<Rightarrow> obj set" where
  "objs_of x = {(fst x @ p, s) | p s. subtree_at (snd x) p = Some s}"

text \<open>
  The same objects listed depth first. The walk of the source lists them breadth first;
  the two lists have the same elements with the same multiplicities, and the depth-first
  list follows the structure of the tree.
\<close>

function dfs :: "obj \<Rightarrow> obj list" where
  "dfs x = x # concat (map dfs (iter_child_nodes x))"
  by pat_completeness auto
termination
proof (relation "measure (\<lambda>x. size (snd x))")
  show "wf (measure (\<lambda>x. size (snd x)))" by simp
next
  fix x y :: obj
  assume "y \<in> set (iter_child_nodes x)"
  then have "snd y \<in> set (child_nodes (snd x))"
    by (cases x) (auto simp: iter_child_nodes_def in_set_enumerate_eq)
  then show "(y, x) \<in> measure (\<lambda>x. size (snd x))"
    by (simp add: child_node_smaller)
qed

declare dfs.simps [simp del]

lemma mset_walk_q: "mset (walk_q q) = mset (concat (map dfs q))"
proof (induction q rule: walk_q.induct)
  case 1
  show ?case by simp
next
  case (2 x todo)
  have "mset (walk_q (x # todo)) = add_mset x (mset (concat (map dfs (todo @ iter_child_nodes x))))"
    using "2.IH" by simp
  also have "\<dots> = mset (x # concat (map dfs (iter_child_nodes x))) + mset (concat (map dfs todo))"
    by simp
  also have "x # concat (map dfs (iter_child_nodes x)) = dfs x"
    by (rule dfs.simps [symmetric])
  finally show ?case by simp
qed

lemma mset_walk: "mset (walk x) = mset (dfs x)"
  by (simp add: walk_def mset_walk_q del: walk_q.simps)

lemma set_walk_dfs: "set (walk x) = set (dfs x)"
  using mset_walk [of x] by (rule mset_eq_setD)

lemma set_iter_child_nodes:
  "set (iter_child_nodes (a, t)) = {(a @ [i], child_nodes t ! i) | i. i < length (child_nodes t)}"
  by (auto simp: iter_child_nodes_def in_set_enumerate_eq image_iff)

lemma objs_of_unfold:
  "objs_of (a, t) = insert (a, t) (\<Union>y \<in> set (iter_child_nodes (a, t)). objs_of y)"
proof (intro set_eqI iffI)
  fix z assume "z \<in> objs_of (a, t)"
  then obtain p s where z: "z = (a @ p, s)" and s: "subtree_at t p = Some s"
    by (auto simp: objs_of_def)
  show "z \<in> insert (a, t) (\<Union>y \<in> set (iter_child_nodes (a, t)). objs_of y)"
  proof (cases p)
    case Nil
    with z s show ?thesis by simp
  next
    case (Cons i p')
    with s have i: "i < length (child_nodes t)" and s': "subtree_at (child_nodes t ! i) p' = Some s"
      by (auto split: if_splits)
    have "(a @ [i], child_nodes t ! i) \<in> set (iter_child_nodes (a, t))"
      using i by (auto simp: set_iter_child_nodes)
    moreover have "z \<in> objs_of (a @ [i], child_nodes t ! i)"
      using z s' Cons by (auto simp: objs_of_def)
    ultimately show ?thesis by blast
  qed
next
  fix z assume "z \<in> insert (a, t) (\<Union>y \<in> set (iter_child_nodes (a, t)). objs_of y)"
  then consider "z = (a, t)" | i where "i < length (child_nodes t)" "z \<in> objs_of (a @ [i], child_nodes t ! i)"
    by (auto simp: set_iter_child_nodes)
  then show "z \<in> objs_of (a, t)"
  proof cases
    case 1
    have "subtree_at t [] = Some t" by simp
    then show ?thesis unfolding objs_of_def 1 by force
  next
    case 2
    then obtain p s where z: "z = ((a @ [i]) @ p, s)" and s: "subtree_at (child_nodes t ! i) p = Some s"
      by (auto simp: objs_of_def)
    have "subtree_at t (i # p) = Some s" using 2(1) s by simp
    then show ?thesis unfolding objs_of_def z by force
  qed
qed

lemma set_dfs: "set (dfs x) = objs_of x"
proof (induction x rule: dfs.induct)
  case (1 x)
  obtain a t where x: "x = (a, t)" by (cases x)
  have "set (dfs x) = insert x (\<Union>y \<in> set (iter_child_nodes x). set (dfs y))"
    by (simp add: dfs.simps [of x])
  also have "\<dots> = insert x (\<Union>y \<in> set (iter_child_nodes x). objs_of y)"
    using "1.IH" by simp
  also have "\<dots> = objs_of x"
    unfolding x by (rule objs_of_unfold [symmetric])
  finally show ?case .
qed

lemma set_walk: "set (walk x) = objs_of x"
  by (simp add: set_walk_dfs set_dfs)

lemma distinct_concat_keyed:
  assumes "distinct (map k xs)"
    and "\<And>x. x \<in> set xs \<Longrightarrow> distinct (f x)"
    and "\<And>x y. x \<in> set xs \<Longrightarrow> y \<in> set (f x) \<Longrightarrow> t y = k x"
  shows "distinct (concat (map f xs))"
  using assms
proof (induction xs)
  case Nil
  show ?case by simp
next
  case (Cons x xs)
  have "set (f x) \<inter> (\<Union>z \<in> set xs. set (f z)) = {}"
  proof (rule ccontr)
    assume "set (f x) \<inter> (\<Union>z \<in> set xs. set (f z)) \<noteq> {}"
    then obtain y z where y: "y \<in> set (f x)" and z: "z \<in> set xs" and yz: "y \<in> set (f z)"
      by blast
    have "t y = k x" using Cons.prems(3) [of x y] y by simp
    moreover have "t y = k z" using Cons.prems(3) [of z y] z yz by simp
    ultimately have "k x = k z" by simp
    with z have "k x \<in> k ` set xs" by (rule_tac image_eqI)
    then show False using Cons.prems(1) by simp
  qed
  moreover have "distinct (concat (map f xs))"
    using Cons by simp
  moreover have "distinct (f x)" using Cons.prems(2) by simp
  ultimately show ?case by simp
qed

lemma map_fst_iter_child_nodes:
  "map fst (iter_child_nodes (a, t)) = map (\<lambda>i. a @ [i]) [0..<length (child_nodes t)]"
proof -
  have "map fst (map (\<lambda>(i, c). (a @ [i], c)) zs) = map (\<lambda>i. a @ [i]) (map fst zs)"
    for zs :: "(nat \<times> node) list"
    by (induction zs) auto
  from this [of "enumerate 0 (child_nodes t)"] show ?thesis
    unfolding iter_child_nodes_def by (simp add: enumerate_eq_zip)
qed

lemma distinct_addr_dfs: "distinct (map fst (dfs x))"
proof (induction x rule: dfs.induct)
  case (1 x)
  obtain a t where x: "x = (a, t)" by (cases x)
  let ?f = "\<lambda>y. map fst (dfs y)"
  have keys: "distinct (map fst (iter_child_nodes x))"
    unfolding x map_fst_iter_child_nodes by (simp add: distinct_map inj_on_def)
  have tag: "take (Suc (length a)) n = fst y"
    if "y \<in> set (iter_child_nodes x)" "n \<in> set (?f y)" for y n
  proof -
    from that(2) obtain s where "(n, s) \<in> objs_of y" by (auto simp: set_dfs)
    then obtain p where n: "n = fst y @ p" by (auto simp: objs_of_def)
    have "length (fst y) = Suc (length a)"
      using that(1) by (auto simp: x set_iter_child_nodes)
    then show ?thesis by (simp add: n)
  qed
  have d: "distinct (concat (map ?f (iter_child_nodes x)))"
    by (rule distinct_concat_keyed [where k = fst and t = "take (Suc (length a))"])
      (use keys "1.IH" tag in auto)
  have "a \<notin> set (concat (map ?f (iter_child_nodes x)))"
  proof
    assume "a \<in> set (concat (map ?f (iter_child_nodes x)))"
    then obtain y where y: "y \<in> set (iter_child_nodes x)" and "a \<in> set (?f y)" by auto
    from tag [OF this] have "length (fst y) \<le> length a"
      by (metis length_take min.cobounded1)
    moreover have "length (fst y) = Suc (length a)"
      using y by (auto simp: x set_iter_child_nodes)
    ultimately show False by simp
  qed
  with d have "distinct (a # concat (map ?f (iter_child_nodes x)))" by simp
  also have "a # concat (map ?f (iter_child_nodes x)) = map fst (dfs x)"
    by (subst dfs.simps [of x]) (simp add: x map_concat comp_def)
  finally show ?case .
qed

lemma distinct_addr_walk: "distinct (map fst (walk x))"
proof -
  have "mset (map fst (walk x)) = mset (map fst (dfs x))"
    by (simp add: mset_walk)
  then show ?thesis
    using distinct_addr_dfs [of x] by (metis mset_eq_imp_distinct_iff)
qed

subsection \<open>The loops in closed form\<close>

text \<open>The findings one node contributes to the pass over one async function.\<close>

definition matches_of :: "Rule list \<Rightarrow> 'p \<Rightarrow> obj \<Rightarrow> obj \<Rightarrow> 'p Finding list" where
  "matches_of rules path async_fn x =
     map (\<lambda>r. \<lparr>file_path = path, line = lineno (snd x), col = col_offset (snd x),
                async_func = name (snd async_fn), rule = r\<rparr>)
         (filter (\<lambda>r. matcher r (snd x)) rules)"

lemma fold_append_concat: "fold (\<lambda>x acc. acc @ g x) xs acc = acc @ concat (map g xs)"
  by (induction xs arbitrary: acc) auto

lemma concat_map_if_filter:
  "concat (map (\<lambda>x. if P x then [] else g x) xs) = concat (map g (filter (\<lambda>x. \<not> P x) xs))"
  by (induction xs) auto

lemma scan_node_eq: "scan_node rules path async_fn x findings = findings @ matches_of rules path async_fn x"
proof -
  have "scan_node rules path async_fn x findings
          = fold (\<lambda>r acc. acc @ (if matcher r (snd x)
                then [\<lparr>file_path = path, line = lineno (snd x), col = col_offset (snd x),
                       async_func = name (snd async_fn), rule = r\<rparr>] else [])) rules findings"
    unfolding scan_node_def by (rule arg_cong [where f = "\<lambda>f. fold f rules findings"]) auto
  also have "\<dots> = findings @ matches_of rules path async_fn x"
    unfolding fold_append_concat matches_of_def by (induction rules) auto
  finally show ?thesis .
qed

lemma scan_func_eq:
  "scan_func rules path async_fn findings =
     findings @ concat (map (matches_of rules path async_fn)
                        (filter (\<lambda>x. fst x \<notin> nodes_inside_sync_context async_fn) (walk async_fn)))"
proof -
  let ?ex = "nodes_inside_sync_context async_fn"
  have "scan_func rules path async_fn findings
          = fold (\<lambda>x acc. acc @ (if fst x \<in> ?ex then [] else matches_of rules path async_fn x))
              (walk async_fn) findings"
    unfolding scan_func_def Let_def
    by (rule arg_cong [where f = "\<lambda>f. fold f (walk async_fn) findings"]) (auto simp: scan_node_eq)
  also have "\<dots> = findings @ concat (map (matches_of rules path async_fn)
                        (filter (\<lambda>x. fst x \<notin> ?ex) (walk async_fn)))"
    unfolding fold_append_concat concat_map_if_filter by simp
  finally show ?thesis .
qed

lemma check_tree_eq:
  "check_tree rules path tree =
     concat (map (\<lambda>af. concat (map (matches_of rules path af)
                    (filter (\<lambda>x. fst x \<notin> nodes_inside_sync_context af) (walk af))))
                 (collect_async_funcs ([], tree)))"
proof -
  have "check_tree rules path tree
          = fold (\<lambda>af acc. acc @ concat (map (matches_of rules path af)
                    (filter (\<lambda>x. fst x \<notin> nodes_inside_sync_context af) (walk af))))
              (collect_async_funcs ([], tree)) []"
    unfolding check_tree_def
    by (rule arg_cong [where f = "\<lambda>f. fold f (collect_async_funcs ([], tree)) []"])
      (intro ext, simp add: scan_func_eq)
  then show ?thesis by (simp add: fold_append_concat)
qed

lemma fold_insert_image: "fold (\<lambda>c e. insert (g c) e) ys e = e \<union> g ` set ys"
  by (induction ys arbitrary: e) auto

lemma nodes_inside_sync_context_eq:
  "nodes_inside_sync_context f =
     (\<Union>x \<in> {x \<in> set (walk f). is_FunctionDef (snd x) \<or> is_ClassDef (snd x)}. fst ` set (walk x))"
proof -
  have "fold (\<lambda>x e. if is_FunctionDef (snd x) \<or> is_ClassDef (snd x)
                     then fold (\<lambda>c e. insert (fst c) e) (walk x) e else e) xs e0
          = e0 \<union> (\<Union>x \<in> {x \<in> set xs. is_FunctionDef (snd x) \<or> is_ClassDef (snd x)}. fst ` set (walk x))"
    for xs :: "obj list" and e0
    by (induction xs arbitrary: e0) (auto simp: fold_insert_image)
  then show ?thesis by (simp add: nodes_inside_sync_context_def)
qed

lemma subtree_at_append:
  "subtree_at t (p @ q) = (case subtree_at t p of None \<Rightarrow> None | Some s \<Rightarrow> subtree_at s q)"
  by (induction p arbitrary: t) auto

lemma crosses_sync_def_split:
  "subtree_at t p = Some s \<Longrightarrow> crosses_sync_def t p \<Longrightarrow>
     \<exists>q r u. p = q @ r \<and> subtree_at t q = Some u \<and> (is_FunctionDef u \<or> is_ClassDef u)
             \<and> subtree_at u r = Some s"
proof (induction p arbitrary: t)
  case Nil
  then show ?case by auto
next
  case (Cons i p)
  show ?case
  proof (cases "is_FunctionDef t \<or> is_ClassDef t")
    case True
    have "i # p = [] @ (i # p) \<and> subtree_at t [] = Some t \<and> subtree_at t (i # p) = Some s"
      using Cons.prems(1) by simp
    with True show ?thesis by blast
  next
    case False
    with Cons.prems have i: "i < length (child_nodes t)"
      and s: "subtree_at (child_nodes t ! i) p = Some s"
      and c: "crosses_sync_def (child_nodes t ! i) p"
      by (auto split: if_splits)
    from Cons.IH [OF s c] obtain q r u where
      "p = q @ r" "subtree_at (child_nodes t ! i) q = Some u" "is_FunctionDef u \<or> is_ClassDef u"
      "subtree_at u r = Some s" by blast
    then have "i # p = (i # q) @ r \<and> subtree_at t (i # q) = Some u
        \<and> (is_FunctionDef u \<or> is_ClassDef u) \<and> subtree_at u r = Some s"
      using i by simp
    then show ?thesis by blast
  qed
qed

lemma crosses_sync_def_below:
  "subtree_at t q = Some u \<Longrightarrow> is_FunctionDef u \<or> is_ClassDef u \<Longrightarrow> crosses_sync_def t (q @ r)"
proof (induction q arbitrary: t)
  case Nil
  then show ?case by (cases r) auto
next
  case (Cons i q)
  then show ?case by (auto split: if_splits)
qed

lemma excluded_iff:
  assumes "subtree_at t p = Some s"
  shows "a @ p \<in> nodes_inside_sync_context (a, t) \<longleftrightarrow> crosses_sync_def t p"
proof
  assume "a @ p \<in> nodes_inside_sync_context (a, t)"
  then obtain y z where y: "y \<in> objs_of (a, t)" and sync: "is_FunctionDef (snd y) \<or> is_ClassDef (snd y)"
    and z: "z \<in> objs_of y" and az: "a @ p = fst z"
    by (auto simp: nodes_inside_sync_context_eq set_walk)
  from y obtain q u where yq: "y = (a @ q, u)" and u: "subtree_at t q = Some u"
    by (auto simp: objs_of_def)
  from z yq obtain r where "fst z = (a @ q) @ r" by (auto simp: objs_of_def)
  with az have "p = q @ r" by simp
  with crosses_sync_def_below [OF u] sync yq show "crosses_sync_def t p" by simp
next
  assume "crosses_sync_def t p"
  from crosses_sync_def_split [OF assms this] obtain q r u where
    p: "p = q @ r" and u: "subtree_at t q = Some u" and sync: "is_FunctionDef u \<or> is_ClassDef u"
    and s: "subtree_at u r = Some s" by blast
  have "(a @ q, u) \<in> objs_of (a, t)" using u by (auto simp: objs_of_def)
  moreover have "((a @ q) @ r, s) \<in> objs_of (a @ q, u)" using s by (auto simp: objs_of_def)
  then have "a @ p \<in> fst ` objs_of (a @ q, u)" unfolding p by force
  ultimately show "a @ p \<in> nodes_inside_sync_context (a, t)"
    using sync unfolding nodes_inside_sync_context_eq set_walk by force
qed

subsection \<open>What is reported, by position\<close>

text \<open>
  A report is a triple: the address of an async function definition, the address of a
  node in its subtree that is not inside a synchronous function or class definition
  nested in that async function, and the index of a rule of the registry whose matcher
  accepts the node.
\<close>

definition reported :: "Rule list \<Rightarrow> node \<Rightarrow> (addr \<times> addr \<times> nat) set" where
  "reported rules tree =
     {(a, a @ p, i) | a p i af nd.
        subtree_at tree a = Some af \<and> is_AsyncFunctionDef af \<and>
        subtree_at af p = Some nd \<and> \<not> crosses_sync_def af p \<and>
        i < length rules \<and> matcher (rules ! i) nd}"

text \<open>The finding of a report: the position of the node, the name of the function, the rule.\<close>

definition finding_at :: "Rule list \<Rightarrow> 'p \<Rightarrow> node \<Rightarrow> addr \<times> addr \<times> nat \<Rightarrow> 'p Finding" where
  "finding_at rules path tree = (\<lambda>(a, n, i).
     \<lparr>file_path = path,
      line = lineno (the (subtree_at tree n)), col = col_offset (the (subtree_at tree n)),
      async_func = name (the (subtree_at tree a)), rule = rules ! i\<rparr>)"

text \<open>The reports in the order in which the loops of \<^verbatim>\<open>check_file\<close> meet them.\<close>

definition trace :: "Rule list \<Rightarrow> node \<Rightarrow> (addr \<times> addr \<times> nat) list" where
  "trace rules tree =
     concat (map (\<lambda>af. concat (map (\<lambda>x. map (\<lambda>i. (fst af, fst x, i))
                                      (filter (\<lambda>i. matcher (rules ! i) (snd x)) [0..<length rules]))
                    (filter (\<lambda>x. fst x \<notin> nodes_inside_sync_context af) (walk af))))
                 (collect_async_funcs ([], tree)))"

lemma map_filter_nth:
  "map g (filter P xs) = map (\<lambda>i. g (xs ! i)) (filter (\<lambda>i. P (xs ! i)) [0..<length xs])"
proof -
  have "map g (filter P (map (nth xs) [0..<length xs]))
          = map (\<lambda>i. g (xs ! i)) (filter (\<lambda>i. P (xs ! i)) [0..<length xs])"
    by (simp add: filter_map comp_def)
  then show ?thesis by (simp add: map_nth)
qed

lemma collect_async_funcs_iff:
  "af \<in> set (collect_async_funcs ([], tree)) \<longleftrightarrow>
     subtree_at tree (fst af) = Some (snd af) \<and> is_AsyncFunctionDef (snd af)"
  by (cases af) (auto simp: collect_async_funcs_def set_walk objs_of_def)

lemma walk_iff:
  "x \<in> set (walk af) \<longleftrightarrow> (\<exists>p. fst x = fst af @ p \<and> subtree_at (snd af) p = Some (snd x))"
  by (cases x) (auto simp: set_walk objs_of_def)

lemma matches_of_finding_at:
  assumes af: "af \<in> set (collect_async_funcs ([], tree))" and x: "x \<in> set (walk af)"
  shows "matches_of rules path af x =
           map (finding_at rules path tree)
             (map (\<lambda>i. (fst af, fst x, i)) (filter (\<lambda>i. matcher (rules ! i) (snd x)) [0..<length rules]))"
proof -
  from af have a: "subtree_at tree (fst af) = Some (snd af)"
    by (simp add: collect_async_funcs_iff)
  from x obtain p where p: "fst x = fst af @ p" "subtree_at (snd af) p = Some (snd x)"
    by (auto simp: walk_iff)
  have n: "subtree_at tree (fst x) = Some (snd x)"
    by (simp add: p a subtree_at_append)
  show ?thesis
    unfolding matches_of_def
    by (subst map_filter_nth) (simp add: finding_at_def a n comp_def)
qed

lemma check_tree_trace:
  "check_tree rules path tree = map (finding_at rules path tree) (trace rules tree)"
proof -
  have mid: "concat (map (matches_of rules path af) (filter E (walk af)))
        = map (finding_at rules path tree)
            (concat (map (\<lambda>x. map (\<lambda>i. (fst af, fst x, i))
                      (filter (\<lambda>i. matcher (rules ! i) (snd x)) [0..<length rules]))
                  (filter E (walk af))))"
    if "af \<in> set (collect_async_funcs ([], tree))" for af E
    unfolding map_concat map_map comp_def
    by (rule arg_cong [where f = concat], rule map_cong [OF refl])
      (simp add: matches_of_finding_at [OF that])
  show ?thesis
    unfolding check_tree_eq trace_def map_concat map_map comp_def
    by (rule arg_cong [where f = concat], rule map_cong [OF refl])
      (simp add: mid map_concat comp_def)
qed

lemma distinct_trace: "distinct (trace rules tree)"
  unfolding trace_def
proof (rule distinct_concat_keyed [where k = fst and t = fst])
  show "distinct (map fst (collect_async_funcs ([], tree)))"
    unfolding collect_async_funcs_def by (rule distinct_map_filter) (rule distinct_addr_walk)
next
  fix af :: obj
  show "distinct (concat (map (\<lambda>x. map (\<lambda>i. (fst af, fst x, i))
                                      (filter (\<lambda>i. matcher (rules ! i) (snd x)) [0..<length rules]))
                    (filter (\<lambda>x. fst x \<notin> nodes_inside_sync_context af) (walk af))))"
  proof (rule distinct_concat_keyed [where k = fst and t = "\<lambda>r. fst (snd r)"])
    show "distinct (map fst (filter (\<lambda>x. fst x \<notin> nodes_inside_sync_context af) (walk af)))"
      by (rule distinct_map_filter) (rule distinct_addr_walk)
  next
    fix x :: obj
    show "distinct (map (\<lambda>i. (fst af, fst x, i)) (filter (\<lambda>i. matcher (rules ! i) (snd x)) [0..<length rules]))"
      by (simp add: distinct_map inj_on_def)
  qed auto
qed auto

lemma set_trace: "set (trace rules tree) = reported rules tree"
proof (intro set_eqI iffI)
  fix r assume "r \<in> set (trace rules tree)"
  then obtain af x i where af: "af \<in> set (collect_async_funcs ([], tree))"
    and x: "x \<in> set (walk af)" and ex: "fst x \<notin> nodes_inside_sync_context af"
    and i: "i < length rules" "matcher (rules ! i) (snd x)" and r: "r = (fst af, fst x, i)"
    by (auto simp: trace_def)
  from x obtain p where p: "fst x = fst af @ p" "subtree_at (snd af) p = Some (snd x)"
    by (auto simp: walk_iff)
  from ex have "\<not> crosses_sync_def (snd af) p"
    using excluded_iff [OF p(2), of "fst af"] by (simp add: p(1))
  with af p i show "r \<in> reported rules tree"
    unfolding reported_def r p(1) collect_async_funcs_iff by blast
next
  fix r assume "r \<in> reported rules tree"
  then obtain a p i af nd where r: "r = (a, a @ p, i)"
    and af: "subtree_at tree a = Some af" "is_AsyncFunctionDef af"
    and nd: "subtree_at af p = Some nd" "\<not> crosses_sync_def af p"
    and i: "i < length rules" "matcher (rules ! i) nd"
    by (auto simp: reported_def)
  have 1: "(a, af) \<in> set (collect_async_funcs ([], tree))"
    using af by (simp add: collect_async_funcs_iff)
  have 2: "(a @ p, nd) \<in> set (walk (a, af))"
    using nd by (simp add: walk_iff)
  have 3: "a @ p \<notin> nodes_inside_sync_context (a, af)"
    using excluded_iff [OF nd(1), of a] nd(2) by simp
  show "r \<in> set (trace rules tree)"
    unfolding trace_def r using 1 2 3 i by force
qed

subsection \<open>Facts about reading, the loops of the entry point and the report\<close>

text \<open>The findings one file adds to a run, and the files a list of paths gives.\<close>

definition findings_of :: "'p world \<Rightarrow> 'p \<Rightarrow> 'p Finding list" where
  "findings_of w f = (case check_file w f of Inl e \<Rightarrow> [] | Inr (findings, errs) \<Rightarrow> findings)"

definition files_of :: "('p::linorder) world \<Rightarrow> 'p list \<Rightarrow> 'p list" where
  "files_of w ps = concat (map (\<lambda>p. fst (iter_python_files w p)) ps)"

lemma utf8_decode_replace_aux: "errs = Replace \<Longrightarrow> \<exists>t. utf8_decode errs bs = Inr t"
proof (induction errs bs rule: utf8_decode.induct)
  case (1 errs)
  show ?case by simp
next
  case (2 errs b bs)
  obtain c rest where step: "utf8_step (b # bs) = (c, rest)" by (cases "utf8_step (b # bs)")
  show ?case
  proof (cases c)
    case None
    with 2 step obtain t where "utf8_decode errs rest = Inr t" by fastforce
    with None step 2(3) show ?thesis by simp
  next
    case (Some cp)
    with 2 step obtain t where "utf8_decode errs rest = Inr t" by fastforce
    with Some step show ?thesis by simp
  qed
qed

lemma utf8_decode_replace_total: "\<exists>t. utf8_decode Replace bs = Inr t"
  by (rule utf8_decode_replace_aux) simp

lemma read_text_replace_cases:
  "(\<exists>m. read_bytes w path = Inl m \<and> read_text w path Replace = Inl (OSError m))
   \<or> (\<exists>bs t. read_bytes w path = Inr bs \<and> utf8_decode Replace bs = Inr t
         \<and> read_text w path Replace = Inr (universal_newlines t))"
proof (cases "read_bytes w path")
  case (Inl m)
  then show ?thesis by (simp add: read_text_def)
next
  case (Inr bs)
  obtain t where "utf8_decode Replace bs = Inr t" using utf8_decode_replace_total by blast
  with Inr show ?thesis by (simp add: read_text_def)
qed

lemma print_findings_append:
  "print_findings w (xs @ ys) = print_findings w xs @ print_findings w ys"
  by (induction xs) auto

lemma print_findings_concat:
  "print_findings w fs = concat (map (\<lambda>f. [diagnostic_line w f, fix_line f]) fs)"
  by (induction fs) auto

lemma files_loop_Inr:
  "files_loop w fs st = Inr st' \<Longrightarrow>
     all_findings st' = all_findings st @ concat (map (findings_of w) fs)
     \<and> stdout st' = stdout st @ print_findings w (concat (map (findings_of w) fs))"
proof (induction fs arbitrary: st)
  case Nil
  then show ?case by simp
next
  case (Cons f fs)
  from Cons.prems obtain findings errs where cf: "check_file w f = Inr (findings, errs)"
    by (auto split: sum.splits)
  with Cons.prems have "files_loop w fs
            (st\<lparr>all_findings := all_findings st @ findings,
                stdout := stdout st @ print_findings w findings,
                stderr := stderr st @ errs\<rparr>) = Inr st'" by simp
  from Cons.IH [OF this] cf show ?case
    by (simp add: findings_of_def print_findings_append)
qed

lemma paths_loop_Inr:
  "paths_loop w ps st = Inr st' \<Longrightarrow>
     all_findings st' = all_findings st @ concat (map (findings_of w) (files_of w ps))
     \<and> stdout st' = stdout st @ print_findings w (concat (map (findings_of w) (files_of w ps)))"
proof (induction ps arbitrary: st)
  case Nil
  then show ?case by (simp add: files_of_def)
next
  case (Cons p ps)
  obtain files warnings where it: "iter_python_files w p = (files, warnings)"
    by (cases "iter_python_files w p")
  with Cons.prems obtain st1 where
    1: "files_loop w files (st\<lparr>stderr := stderr st @ warnings\<rparr>) = Inr st1"
    and 2: "paths_loop w ps st1 = Inr st'"
    by (auto split: sum.splits)
  from files_loop_Inr [OF 1] Cons.IH [OF 2] it show ?case
    by (simp add: files_of_def print_findings_append)
qed

lemma check_file_cases:
  "(\<exists>m msg. read_text w f Replace = Inl (OSError m) \<and> check_file w f = Inr ([], [msg]))
   \<or> (\<exists>src m msg. read_text w f Replace = Inr src
          \<and> ast_parse w src (str_path w f) = Inl (SyntaxError m) \<and> check_file w f = Inr ([], [msg]))
   \<or> (\<exists>src e. read_text w f Replace = Inr src \<and> ast_parse w src (str_path w f) = Inl e
          \<and> (\<forall>m. e \<noteq> SyntaxError m) \<and> check_file w f = Inl e)
   \<or> (\<exists>src tree. read_text w f Replace = Inr src \<and> ast_parse w src (str_path w f) = Inr tree
          \<and> check_file w f = Inr (check_tree RULES f tree, []))"
proof -
  from read_text_replace_cases [of w f] consider
    m where "read_text w f Replace = Inl (OSError m)"
    | src where "read_text w f Replace = Inr src" by blast
  then show ?thesis
  proof cases
    case 1
    then show ?thesis by (simp add: check_file_def)
  next
    case 2
    show ?thesis
    proof (cases "ast_parse w src (str_path w f)")
      case (Inl e)
      with 2 show ?thesis by (cases e) (simp_all add: check_file_def)
    next
      case (Inr tree)
      with 2 show ?thesis by (simp add: check_file_def)
    qed
  qed
qed

lemma check_tree_rules: "x \<in> set (check_tree rules path tree) \<Longrightarrow> rule x \<in> set rules"
  by (auto simp: check_tree_eq matches_of_def)

lemma check_file_rules:
  "check_file w f = Inr (findings, errs) \<Longrightarrow> x \<in> set findings \<Longrightarrow> rule x \<in> set RULES"
proof -
  assume cf: "check_file w f = Inr (findings, errs)" and x: "x \<in> set findings"
  from check_file_cases [of w f] cf consider "findings = []"
    | tree where "findings = check_tree RULES f tree"
    by auto
  then show ?thesis using x by cases (auto dest: check_tree_rules)
qed

lemma findings_of_rules: "x \<in> set (findings_of w f) \<Longrightarrow> rule x \<in> set RULES"
proof (cases "check_file w f")
  case (Inl e)
  assume "x \<in> set (findings_of w f)"
  with Inl show ?thesis by (simp add: findings_of_def)
next
  case (Inr r)
  assume x: "x \<in> set (findings_of w f)"
  obtain findings errs where r: "r = (findings, errs)" by (cases r)
  with Inr x have "x \<in> set findings" by (simp add: findings_of_def)
  with Inr r show ?thesis using check_file_rules [of w f findings errs x] by simp
qed

lemma check_file_total:
  assumes "\<And>src n e. ast_parse w src n = Inl e \<Longrightarrow> \<exists>m. e = SyntaxError m"
  shows "\<exists>findings errs. check_file w f = Inr (findings, errs)"
proof -
  from check_file_cases [of w f] consider
    msg where "check_file w f = Inr ([], [msg])"
    | src e where "ast_parse w src (str_path w f) = Inl e" "\<forall>m. e \<noteq> SyntaxError m"
    | tree where "check_file w f = Inr (check_tree RULES f tree, [])"
    by blast
  then show ?thesis
  proof cases
    case 2
    with assms [of src "str_path w f" e] show ?thesis by blast
  qed blast+
qed

lemma files_loop_total:
  assumes "\<And>src n e. ast_parse w src n = Inl e \<Longrightarrow> \<exists>m. e = SyntaxError m"
  shows "\<exists>st'. files_loop w fs st = Inr st'"
proof (induction fs arbitrary: st)
  case Nil
  show ?case by simp
next
  case (Cons f fs)
  have "\<exists>findings errs. check_file w f = Inr (findings, errs)"
    by (rule check_file_total) (rule assms)
  then obtain findings errs where "check_file w f = Inr (findings, errs)" by blast
  with Cons show ?case by simp
qed

lemma paths_loop_total:
  assumes "\<And>src n e. ast_parse w src n = Inl e \<Longrightarrow> \<exists>m. e = SyntaxError m"
  shows "\<exists>st'. paths_loop w ps st = Inr st'"
proof (induction ps arbitrary: st)
  case Nil
  show ?case by simp
next
  case (Cons p ps)
  obtain files warnings where it: "iter_python_files w p = (files, warnings)"
    by (cases "iter_python_files w p")
  have "\<exists>st1. files_loop w files (st\<lparr>stderr := stderr st @ warnings\<rparr>) = Inr st1"
    by (rule files_loop_total) (rule assms)
  then obtain st1
    where "files_loop w files (st\<lparr>stderr := stderr st @ warnings\<rparr>) = Inr st1" by blast
  with Cons it show ?case by simp
qed

lemma by_rule_lines_total:
  "(\<And>k. k \<in> fst ` set items \<Longrightarrow> k \<in> id_rule ` set RULES) \<Longrightarrow> \<exists>ls. by_rule_lines items = Inr ls"
proof (induction items)
  case Nil
  show ?case by simp
next
  case (Cons item items)
  obtain k c where item: "item = (k, c)" by (cases item)
  from Cons.prems [of k] item have "k \<in> id_rule ` set RULES" by simp
  then obtain r where "find (\<lambda>r. id_rule r = k) RULES = Some r"
    by (cases "find (\<lambda>r. id_rule r = k) RULES") (auto simp: find_None_iff)
  moreover from Cons obtain ls where "by_rule_lines items = Inr ls" by auto
  ultimately show ?case by (simp add: item)
qed

lemma print_summary_total:
  assumes "\<And>x. x \<in> set fs \<Longrightarrow> rule x \<in> set RULES"
  shows "\<exists>ls. print_summary w fs = Inr ls"
proof (cases "fs = []")
  case True
  then show ?thesis by (simp add: print_summary_def)
next
  case False
  have "\<exists>ls. by_rule_lines (sort_key fst (counter (map (\<lambda>f. id_rule (rule f)) fs))) = Inr ls"
    by (rule by_rule_lines_total) (use assms in \<open>auto simp: counter_def\<close>)
  then show ?thesis using False by (auto simp: print_summary_def Let_def)
qed

text \<open>What a run shows apart from standard error: the findings and standard output.\<close>

definition observed :: "'p run \<Rightarrow> 'p Finding list \<times> string list" where
  "observed st = (all_findings st, stdout st)"

lemma files_loop_observed:
  "observed st = observed st' \<Longrightarrow>
     map_sum id observed (files_loop w fs st) = map_sum id observed (files_loop w fs st')"
proof (induction fs arbitrary: st st')
  case Nil
  then show ?case by simp
next
  case (Cons f fs)
  show ?case
  proof (cases "check_file w f")
    case (Inl e)
    then show ?thesis by simp
  next
    case (Inr r)
    obtain findings errs where r: "r = (findings, errs)" by (cases r)
    have "observed (st\<lparr>all_findings := all_findings st @ findings,
                stdout := stdout st @ print_findings w findings,
                stderr := stderr st @ errs\<rparr>)
        = observed (st'\<lparr>all_findings := all_findings st' @ findings,
                stdout := stdout st' @ print_findings w findings,
                stderr := stderr st' @ errs\<rparr>)"
      using Cons.prems by (simp add: observed_def)
    from Cons.IH [OF this] Inr r show ?thesis by simp
  qed
qed

lemma paths_loop_observed:
  "observed st = observed st' \<Longrightarrow>
     map_sum id observed (paths_loop w ps st) = map_sum id observed (paths_loop w ps st')"
proof (induction ps arbitrary: st st')
  case Nil
  then show ?case by simp
next
  case (Cons p ps)
  obtain files warnings where it: "iter_python_files w p = (files, warnings)"
    by (cases "iter_python_files w p")
  have "observed (st\<lparr>stderr := stderr st @ warnings\<rparr>) = observed (st'\<lparr>stderr := stderr st' @ warnings\<rparr>)"
    using Cons.prems by (simp add: observed_def)
  from files_loop_observed [OF this, of w files]
  consider e where "files_loop w files (st\<lparr>stderr := stderr st @ warnings\<rparr>) = Inl e"
      "files_loop w files (st'\<lparr>stderr := stderr st' @ warnings\<rparr>) = Inl e"
    | s1 s1' where "files_loop w files (st\<lparr>stderr := stderr st @ warnings\<rparr>) = Inr s1"
      "files_loop w files (st'\<lparr>stderr := stderr st' @ warnings\<rparr>) = Inr s1'"
      "observed s1 = observed s1'"
    by (cases "files_loop w files (st\<lparr>stderr := stderr st @ warnings\<rparr>)";
        cases "files_loop w files (st'\<lparr>stderr := stderr st' @ warnings\<rparr>)") auto
  then show ?case
  proof cases
    case 1
    with it show ?thesis by simp
  next
    case 2
    with it Cons.IH [OF 2(3)] show ?thesis by simp
  qed
qed

lemma paths_loop_append:
  "paths_loop w (ps @ qs) st =
     (case paths_loop w ps st of Inl e \<Rightarrow> Inl e | Inr st' \<Rightarrow> paths_loop w qs st')"
proof (induction ps arbitrary: st)
  case Nil
  show ?case by simp
next
  case (Cons p ps)
  then show ?case by (simp split: prod.splits sum.splits)
qed

lemma main_observed:
  assumes "map_sum id observed (paths_loop w (paths args) \<lparr>all_findings = [], stdout = [], stderr = []\<rparr>)
         = map_sum id observed (paths_loop w (paths args') \<lparr>all_findings = [], stdout = [], stderr = []\<rparr>)"
    and "summary args = summary args'" and "exit_zero args = exit_zero args'"
  shows "map_sum id (\<lambda>(code, st). (code, observed st)) (main w args)
       = map_sum id (\<lambda>(code, st). (code, observed st)) (main w args')"
proof -
  let ?s0 = "\<lparr>all_findings = [], stdout = [], stderr = []\<rparr> :: 'a run"
  from assms(1) consider e where "paths_loop w (paths args) ?s0 = Inl e" "paths_loop w (paths args') ?s0 = Inl e"
    | st st' where "paths_loop w (paths args) ?s0 = Inr st" "paths_loop w (paths args') ?s0 = Inr st'"
        "observed st = observed st'"
    by (cases "paths_loop w (paths args) ?s0"; cases "paths_loop w (paths args') ?s0") auto
  then show ?thesis
  proof cases
    case 1
    then show ?thesis by (simp add: main_def)
  next
    case 2
    from 2(3) have eq: "all_findings st = all_findings st'" "stdout st = stdout st'"
      by (simp_all add: observed_def)
    show ?thesis
      using 2(1,2) eq assms(2,3)
      by (cases "print_summary w (all_findings st')") (simp_all add: main_def observed_def Let_def)
  qed
qed

text \<open>A tree contains an async function definition.\<close>

function has_async_def :: "node \<Rightarrow> bool" where
  "has_async_def t = (is_AsyncFunctionDef t \<or> list_ex has_async_def (child_nodes t))"
  by pat_completeness auto
termination
  by (relation "measure size") (auto simp: child_node_smaller)

declare has_async_def.simps [simp del]

lemma has_async_def_iff:
  "has_async_def t \<longleftrightarrow> (\<exists>p s. subtree_at t p = Some s \<and> is_AsyncFunctionDef s)"
proof
  show "has_async_def t \<Longrightarrow> \<exists>p s. subtree_at t p = Some s \<and> is_AsyncFunctionDef s"
  proof (induction t rule: has_async_def.induct)
    case (1 t)
    show ?case
    proof (cases "is_AsyncFunctionDef t")
      case True
      then have "subtree_at t [] = Some t \<and> is_AsyncFunctionDef t" by simp
      then show ?thesis by blast
    next
      case False
      with "1.prems" obtain c where c: "c \<in> set (child_nodes t)" "has_async_def c"
        by (auto simp: has_async_def.simps [of t] list_ex_iff)
      from "1.IH" [OF c] obtain p s where ps: "subtree_at c p = Some s" "is_AsyncFunctionDef s"
        by blast
      from c(1) obtain i where "i < length (child_nodes t)" "child_nodes t ! i = c"
        by (auto simp: in_set_conv_nth)
      with ps have "subtree_at t (i # p) = Some s \<and> is_AsyncFunctionDef s" by simp
      then show ?thesis by blast
    qed
  qed
next
  assume "\<exists>p s. subtree_at t p = Some s \<and> is_AsyncFunctionDef s"
  then obtain p s where "subtree_at t p = Some s" "is_AsyncFunctionDef s" by blast
  then show "has_async_def t"
  proof (induction p arbitrary: t)
    case Nil
    then have "is_AsyncFunctionDef t" by simp
    then show ?case by (subst has_async_def.simps) simp
  next
    case (Cons i p)
    then have i: "i < length (child_nodes t)" and "subtree_at (child_nodes t ! i) p = Some s"
      by (auto split: if_splits)
    with Cons have "has_async_def (child_nodes t ! i)" by blast
    with i show ?case by (auto simp: has_async_def.simps [of t] list_ex_iff)
  qed
qed

lemma no_async_collect: "\<not> has_async_def tree \<Longrightarrow> collect_async_funcs ([], tree) = []"
proof (rule ccontr)
  assume no: "\<not> has_async_def tree" and "collect_async_funcs ([], tree) \<noteq> []"
  then obtain af where "af \<in> set (collect_async_funcs ([], tree))"
    by (cases "collect_async_funcs ([], tree)") auto
  then have "subtree_at tree (fst af) = Some (snd af) \<and> is_AsyncFunctionDef (snd af)"
    by (simp add: collect_async_funcs_iff)
  with no show False unfolding has_async_def_iff by blast
qed

section \<open>Example inputs\<close>

text \<open>The bytes of an ASCII source text, with \<open>\<newline>\<close> for the end of a line.\<close>

definition bytes_of :: "string \<Rightarrow> byte list" where
  "bytes_of s = map of_char s"

text \<open>
  \<^verbatim>\<open>async def outer():\<close>\<^verbatim>\<open>    async def inner():\<close>\<^verbatim>\<open>        time.sleep(1)\<close>
\<close>

definition nested_async_src :: string where
  "nested_async_src =
     ''async def outer():'' @ [CHR 0x0A] @
     ''    async def inner():'' @ [CHR 0x0A] @
     ''        time.sleep(1)'' @ [CHR 0x0A]"

definition nested_async_tree :: node where
  "nested_async_tree =
     Other [AsyncFunctionDef 1 0 ''outer'' [Other [],
       AsyncFunctionDef 2 4 ''inner'' [Other [],
         Other [Call 3 8 (Attribute 3 8 (Name 3 8 ''time'') ''sleep'') [Other []]]]]]"

text \<open>
  \<^verbatim>\<open>async def outer():\<close>\<^verbatim>\<open>    def helper():\<close>\<^verbatim>\<open>        open('f')\<close>\<^verbatim>\<open>    helper()\<close>
\<close>

definition sync_helper_src :: string where
  "sync_helper_src =
     ''async def outer():'' @ [CHR 0x0A] @
     ''    def helper():'' @ [CHR 0x0A] @
     ''        open('f')'' @ [CHR 0x0A] @
     ''    helper()'' @ [CHR 0x0A]"

definition sync_helper_tree :: node where
  "sync_helper_tree =
     Other [AsyncFunctionDef 1 0 ''outer'' [Other [],
       FunctionDef 2 4 ''helper'' [Other [],
         Other [Call 3 8 (Name 3 8 ''open'') [Other []]]],
       Other [Call 4 4 (Name 4 4 ''helper'') []]]]"

text \<open>
  \<^verbatim>\<open>def work():\<close>\<^verbatim>\<open>    time.sleep(1)\<close>\<^verbatim>\<open>open('f')\<close>
\<close>

definition sync_only_src :: string where
  "sync_only_src =
     ''def work():'' @ [CHR 0x0A] @
     ''    time.sleep(1)'' @ [CHR 0x0A] @
     ''open('f')'' @ [CHR 0x0A]"

definition sync_only_tree :: node where
  "sync_only_tree =
     Other [FunctionDef 1 0 ''work'' [Other [],
              Other [Call 2 4 (Attribute 2 4 (Name 2 4 ''time'') ''sleep'') [Other []]]],
            Other [Call 3 0 (Name 3 0 ''open'') [Other []]]]"

text \<open>
  \<^verbatim>\<open>async def f():\<close>\<^verbatim>\<open>    if x:\<close>\<^verbatim>\<open>        time.sleep(1)\<close>\<^verbatim>\<open>    time.sleep(2)\<close>
\<close>

definition branch_src :: string where
  "branch_src =
     ''async def f():'' @ [CHR 0x0A] @
     ''    if x:'' @ [CHR 0x0A] @
     ''        time.sleep(1)'' @ [CHR 0x0A] @
     ''    time.sleep(2)'' @ [CHR 0x0A]"

definition branch_tree :: node where
  "branch_tree =
     Other [AsyncFunctionDef 1 0 ''f'' [Other [],
       Other [Name 2 7 ''x'',
              Other [Call 3 8 (Attribute 3 8 (Name 3 8 ''time'') ''sleep'') [Other []]]],
       Other [Call 4 4 (Attribute 4 4 (Name 4 4 ''time'') ''sleep'') [Other []]]]]"

text \<open>
  A file in Latin-1, not in UTF-8: the byte \<^verbatim>\<open>0xE9\<close> of its comment starts no character.
  \<^verbatim>\<open># caf?\<close>\<^verbatim>\<open>async def f():\<close>\<^verbatim>\<open>    open('f')\<close>
\<close>

definition latin1_bytes :: "byte list" where
  "latin1_bytes =
     bytes_of ''# caf'' @ [0xE9, 0x0A] @
     bytes_of (''async def f():'' @ [CHR 0x0A] @ ''    open('f')'' @ [CHR 0x0A])"

definition latin1_decoded :: source_text where
  "latin1_decoded =
     map of_char ''# caf'' @ [0xFFFD, 0x0A] @
     map of_char (''async def f():'' @ [CHR 0x0A] @ ''    open('f')'' @ [CHR 0x0A])"

definition latin1_tree :: node where
  "latin1_tree =
     Other [AsyncFunctionDef 2 0 ''f'' [Other [],
       Other [Call 3 4 (Name 3 4 ''open'') [Other []]]]]"

text \<open>
  A world in which every path is a Python file: one that cannot be read, the examples
  above, and files whose text does not parse.
\<close>

definition demo_world :: "string world" where
  "demo_world =
     \<lparr>is_file = (\<lambda>p. True), is_dir = (\<lambda>p. False), suffix = (\<lambda>p. ''.py''),
      rglob = (\<lambda>p pat. []), str_path = (\<lambda>p. p),
      read_bytes = (\<lambda>p. if p = ''locked.py'' then Inl ''[Errno 13] Permission denied''
                         else if p = ''nested.py'' then Inr (bytes_of nested_async_src)
                         else if p = ''helper.py'' then Inr (bytes_of sync_helper_src)
                         else if p = ''sync.py'' then Inr (bytes_of sync_only_src)
                         else if p = ''branch.py'' then Inr (bytes_of branch_src)
                         else if p = ''latin1.py'' then Inr latin1_bytes
                         else Inr (bytes_of ''def (:'')),
      ast_parse = (\<lambda>src n. if src = map of_char nested_async_src then Inr nested_async_tree
                            else if src = map of_char sync_helper_src then Inr sync_helper_tree
                            else if src = map of_char sync_only_src then Inr sync_only_tree
                            else if src = map of_char branch_src then Inr branch_tree
                            else if src = latin1_decoded then Inr latin1_tree
                            else Inl (SyntaxError ''invalid syntax''))\<rparr>"

text \<open>The pairs of a node and a rule, each counted once, that matched in some pass.\<close>

definition matched_pairs :: "Rule list \<Rightarrow> node \<Rightarrow> (addr \<times> nat) list" where
  "matched_pairs rules tree =
     remdups (concat (map (\<lambda>af. concat (map (\<lambda>x. map (\<lambda>i. (fst x, i))
                                      (filter (\<lambda>i. matcher (rules ! i) (snd x)) [0..<length rules]))
                    (filter (\<lambda>x. fst x \<notin> nodes_inside_sync_context af) (walk af))))
                 (collect_async_funcs ([], tree))))"

text \<open>What the report shows of a finding, apart from the fixed texts of its rule.\<close>

definition shown :: "'p Finding \<Rightarrow> 'p \<times> int \<times> int \<times> string \<times> string" where
  "shown f = (file_path f, line f, col f, async_func f, id_rule (rule f))"

lemma nested_async_shown:
  "map shown (check_tree RULES ''nested.py'' nested_async_tree) =
     [(''nested.py'', 3, 8, ''outer'', ''ASYNC005''), (''nested.py'', 3, 8, ''inner'', ''ASYNC005'')]"
  by code_simp

lemma sync_helper_count: "length (check_tree RULES ''helper.py'' sync_helper_tree) = 0"
  by code_simp

lemma nested_async_pairs: "matched_pairs RULES nested_async_tree = [([0, 1, 1, 0], 4)]"
  by code_simp

lemmas eval_read = read_text_def demo_world_def bytes_of_def utf8_step.simps is_cont_def second_ok_def

lemma read_nested: "read_text demo_world ''nested.py'' Replace = Inr (map of_char nested_async_src)"
  by (simp add: eval_read nested_async_src_def)

lemma read_helper: "read_text demo_world ''helper.py'' Replace = Inr (map of_char sync_helper_src)"
  by (simp add: eval_read sync_helper_src_def)

lemma read_sync: "read_text demo_world ''sync.py'' Replace = Inr (map of_char sync_only_src)"
  by (simp add: eval_read sync_only_src_def)

lemma read_branch: "read_text demo_world ''branch.py'' Replace = Inr (map of_char branch_src)"
  by (simp add: eval_read branch_src_def)

lemma read_latin1: "read_text demo_world ''latin1.py'' Replace = Inr latin1_decoded"
  by (simp add: eval_read latin1_bytes_def latin1_decoded_def)

lemma read_locked:
  "read_text demo_world ''locked.py'' Replace = Inl (OSError ''[Errno 13] Permission denied'')"
  by (simp add: eval_read)

lemma read_broken: "read_text demo_world ''broken.py'' Replace = Inr (map of_char ''def (:'')"
  by (simp add: eval_read)

lemma parse_nested:
  "ast_parse demo_world (map of_char nested_async_src) n = Inr nested_async_tree"
  by (simp add: demo_world_def)

lemma parse_helper: "ast_parse demo_world (map of_char sync_helper_src) n = Inr sync_helper_tree"
  by (simp add: demo_world_def nested_async_src_def sync_helper_src_def)

lemma parse_sync: "ast_parse demo_world (map of_char sync_only_src) n = Inr sync_only_tree"
  by (simp add: demo_world_def nested_async_src_def sync_helper_src_def sync_only_src_def)

lemma parse_branch: "ast_parse demo_world (map of_char branch_src) n = Inr branch_tree"
  by (simp add: demo_world_def nested_async_src_def sync_helper_src_def sync_only_src_def
      branch_src_def)

lemma parse_latin1: "ast_parse demo_world latin1_decoded n = Inr latin1_tree"
  by (simp add: demo_world_def nested_async_src_def sync_helper_src_def sync_only_src_def
      branch_src_def latin1_decoded_def)

lemma parse_broken:
  "ast_parse demo_world (map of_char ''def (:'') n = Inl (SyntaxError ''invalid syntax'')"
  by (simp add: demo_world_def nested_async_src_def sync_helper_src_def sync_only_src_def
      branch_src_def latin1_decoded_def)

lemma parse_only_syntax_errors: "ast_parse demo_world src n = Inl e \<Longrightarrow> \<exists>m. e = SyntaxError m"
  by (auto simp: demo_world_def split: if_splits)

lemma str_path_demo: "str_path demo_world p = p"
  by (simp add: demo_world_def)

lemma branch_shown:
  "map shown (check_tree RULES ''branch.py'' branch_tree) =
     [(''branch.py'', 4, 4, ''f'', ''ASYNC005''), (''branch.py'', 3, 8, ''f'', ''ASYNC005'')]"
  by code_simp

lemma latin1_shown:
  "map shown (check_tree RULES ''latin1.py'' latin1_tree) = [(''latin1.py'', 3, 4, ''f'', ''ASYNC006'')]"
  by code_simp

lemma sync_only_no_async: "\<not> has_async_def sync_only_tree"
  by code_simp

lemma check_sync:
  "check_file demo_world ''sync.py'' = Inr (check_tree RULES ''sync.py'' sync_only_tree, [])"
  by (simp add: check_file_def read_sync str_path_demo parse_sync)

lemma check_branch:
  "check_file demo_world ''branch.py'' = Inr (check_tree RULES ''branch.py'' branch_tree, [])"
  by (simp add: check_file_def read_branch str_path_demo parse_branch)

lemma check_latin1:
  "check_file demo_world ''latin1.py'' = Inr (check_tree RULES ''latin1.py'' latin1_tree, [])"
  by (simp add: check_file_def read_latin1 str_path_demo parse_latin1)

lemma check_locked:
  "check_file demo_world ''locked.py''
     = Inr ([], [''ERROR: Cannot read locked.py: [Errno 13] Permission denied''])"
  by (simp add: check_file_def read_locked str_path_demo)

lemma check_broken:
  "check_file demo_world ''broken.py''
     = Inr ([], [''ERROR: Syntax error in broken.py: invalid syntax''])"
  using parse_broken [of "''broken.py''"] by (simp add: check_file_def read_broken str_path_demo)

lemma print_branch:
  "print_findings demo_world (check_tree RULES ''branch.py'' branch_tree) =
     [''branch.py:4:4: [ASYNC005] In 'async def f': time.sleep() blocks the event loop'',
      ''  Fix: Use 'await asyncio.sleep(seconds)' instead'',
      ''branch.py:3:8: [ASYNC005] In 'async def f': time.sleep() blocks the event loop'',
      ''  Fix: Use 'await asyncio.sleep(seconds)' instead'']"
  by code_simp

lemma branch_nonempty: "check_tree RULES ''branch.py'' branch_tree \<noteq> []"
  using branch_shown by auto

lemma iter_demo: "iter_python_files demo_world p = ([p], [])"
  by (simp add: iter_python_files_def demo_world_def)

lemma main_branch:
  "main demo_world \<lparr>paths = [''locked.py'', ''branch.py''], exit_zero = False, summary = False\<rparr> =
     Inr (1, \<lparr>all_findings = check_tree RULES ''branch.py'' branch_tree,
              stdout =
                [''branch.py:4:4: [ASYNC005] In 'async def f': time.sleep() blocks the event loop'',
                 ''  Fix: Use 'await asyncio.sleep(seconds)' instead'',
                 ''branch.py:3:8: [ASYNC005] In 'async def f': time.sleep() blocks the event loop'',
                 ''  Fix: Use 'await asyncio.sleep(seconds)' instead''],
              stderr = [''ERROR: Cannot read locked.py: [Errno 13] Permission denied'']\<rparr>)"
  by (simp add: main_def iter_demo check_branch check_locked print_branch branch_nonempty)

lemma files_loop_recovered:
  "check_file w f = Inr ([], [msg]) \<Longrightarrow>
     files_loop w (f # rest) st = files_loop w rest (st\<lparr>stderr := stderr st @ [msg]\<rparr>)"
  by simp

lemma paths_loop_recovered:
  assumes "is_file w f" and "suffix w f = ''.py''" and "check_file w f = Inr ([], [msg])"
  shows "paths_loop w (f # qs) st = paths_loop w qs (st\<lparr>stderr := stderr st @ [msg]\<rparr>)"
  using assms by (simp add: iter_python_files_def)

lemma decode_latin1_strict: "utf8_decode Strict latin1_bytes = Inl UnicodeDecodeError"
  by (simp add: latin1_bytes_def bytes_of_def utf8_step.simps is_cont_def second_ok_def)

lemma findings_latin1:
  "map shown (findings_of demo_world ''latin1.py'') = [(''latin1.py'', 3, 4, ''f'', ''ASYNC006'')]"
  by (simp add: findings_of_def check_latin1 latin1_shown)

lemma read_bytes_latin1: "read_bytes demo_world ''latin1.py'' = Inr latin1_bytes"
  by (simp add: demo_world_def)

section \<open>The claims\<close>

text \<open>
  C1. Claimed: a blocking call inside an async function nested in another async function
  yields exactly one finding, attributed to the innermost async function, the body of the
  nested async function being excluded from the pass over the outer one. The exclusion set
  holds the nodes of nested \<^verbatim>\<open>FunctionDef\<close> and \<^verbatim>\<open>ClassDef\<close> subtrees only, so the pass
  over \<^verbatim>\<open>outer\<close> reaches the call in \<^verbatim>\<open>inner\<close> as well: the call is reported twice, once
  for each function.
\<close>

theorem nested_async_reported_twice:
  "map shown (check_tree RULES ''nested.py'' nested_async_tree) =
     [(''nested.py'', 3, 8, ''outer'', ''ASYNC005''), (''nested.py'', 3, 8, ''inner'', ''ASYNC005'')]"
  by (rule nested_async_shown)

text \<open>
  C1 as the code has it: a node that a rule matches yields a finding attributed to every
  async function that contains it with no synchronous function or class definition in
  between, the innermost one and each outer one alike.
\<close>

theorem reported_for_each_enclosing_async:
  assumes "subtree_at tree a = Some af" and "is_AsyncFunctionDef af"
    and "subtree_at af p = Some nd" and "\<not> crosses_sync_def af p"
    and "r \<in> set rules" and "matcher r nd"
  shows "\<lparr>file_path = path, line = lineno nd, col = col_offset nd,
           async_func = name af, rule = r\<rparr> \<in> set (check_tree rules path tree)"
proof -
  from assms(5) obtain i where i: "i < length rules" "rules ! i = r"
    by (auto simp: in_set_conv_nth)
  have "(a, a @ p, i) \<in> reported rules tree"
    unfolding reported_def using assms(1-4,6) i by blast
  then have "finding_at rules path tree (a, a @ p, i) \<in> set (check_tree rules path tree)"
    by (simp add: check_tree_trace set_trace)
  moreover have "subtree_at tree (a @ p) = Some nd"
    using assms(1,3) by (simp add: subtree_at_append)
  ultimately show ?thesis using assms(1) i(2) by (simp add: finding_at_def)
qed

theorem reported_for_each_enclosing_async_witness:
  "subtree_at nested_async_tree [0] \<noteq> None
   \<and> is_AsyncFunctionDef (the (subtree_at nested_async_tree [0]))
   \<and> name (the (subtree_at nested_async_tree [0])) = ''outer''
   \<and> subtree_at (the (subtree_at nested_async_tree [0])) [1, 1, 0]
       = Some (Call 3 8 (Attribute 3 8 (Name 3 8 ''time'') ''sleep'') [Other []])
   \<and> \<not> crosses_sync_def (the (subtree_at nested_async_tree [0])) [1, 1, 0]
   \<and> RULES ! 4 \<in> set RULES
   \<and> matcher (RULES ! 4) (Call 3 8 (Attribute 3 8 (Name 3 8 ''time'') ''sleep'') [Other []])
   \<and> \<lparr>file_path = ''nested.py'', line = 3, col = 8, async_func = ''outer'', rule = RULES ! 4\<rparr>
       \<in> set (check_tree RULES ''nested.py'' nested_async_tree)"
proof -
  let ?af = "AsyncFunctionDef 1 0 ''outer'' [Other [],
       AsyncFunctionDef 2 4 ''inner'' [Other [],
         Other [Call 3 8 (Attribute 3 8 (Name 3 8 ''time'') ''sleep'') [Other []]]]]"
  let ?nd = "Call 3 8 (Attribute 3 8 (Name 3 8 ''time'') ''sleep'') [Other []]"
  have 1: "subtree_at nested_async_tree [0] = Some ?af"
    by (simp add: nested_async_tree_def)
  have 2: "is_AsyncFunctionDef ?af" by simp
  have 3: "subtree_at ?af [1, 1, 0] = Some ?nd" by simp
  have 4: "\<not> crosses_sync_def ?af [1, 1, 0]" by simp
  have 5: "RULES ! 4 \<in> set RULES" by (simp add: RULES_def)
  have 6: "matcher (RULES ! 4) ?nd" by (simp add: RULES_def call_matches_def)
  from reported_for_each_enclosing_async [OF 1 2 3 4 5 6, of "''nested.py''"]
  show ?thesis using 1 2 3 4 5 6 by simp
qed

text \<open>
  C2. A file whose tree contains no async function definition has an empty list of
  findings, whatever blocking calls its synchronous code makes.
\<close>

theorem no_async_no_findings:
  assumes "read_text w path Replace = Inr source"
    and "ast_parse w source (str_path w path) = Inr tree"
    and "\<not> has_async_def tree"
  shows "check_file w path = Inr ([], [])"
  using assms by (simp add: check_file_def check_tree_def no_async_collect)

theorem no_async_no_findings_witness:
  "read_text demo_world ''sync.py'' Replace = Inr (map of_char sync_only_src)
   \<and> ast_parse demo_world (map of_char sync_only_src) (str_path demo_world ''sync.py'')
       = Inr sync_only_tree
   \<and> \<not> has_async_def sync_only_tree
   \<and> check_file demo_world ''sync.py'' = Inr ([], [])"
  using no_async_no_findings [OF read_sync parse_sync sync_only_no_async]
  by (simp add: read_sync parse_sync sync_only_no_async)

text \<open>
  C3. The findings of a tree are the matches of the nodes that are not inside a
  synchronous function or class definition nested in the async function being analysed:
  no other node contributes a finding. The file
  \<^verbatim>\<open>async def outer():\<close>\<^verbatim>\<open>    def helper():\<close>\<^verbatim>\<open>        open('f')\<close>\<^verbatim>\<open>    helper()\<close>
  has no findings.
\<close>

theorem no_finding_inside_sync_def:
  "check_tree rules path tree =
     concat (map (\<lambda>af. concat (map (matches_of rules path af)
                    (filter (\<lambda>x. \<not> crosses_sync_def (snd af) (drop (length (fst af)) (fst x)))
                       (walk af))))
                 (collect_async_funcs ([], tree)))
   \<and> check_file demo_world ''helper.py'' = Inr ([], [])"
proof
  have "filter (\<lambda>x. fst x \<notin> nodes_inside_sync_context af) (walk af)
      = filter (\<lambda>x. \<not> crosses_sync_def (snd af) (drop (length (fst af)) (fst x))) (walk af)"
    for af :: obj
  proof (rule filter_cong [OF refl])
    fix x assume "x \<in> set (walk af)"
    then obtain p where p: "fst x = fst af @ p" "subtree_at (snd af) p = Some (snd x)"
      by (auto simp: walk_iff)
    from excluded_iff [OF p(2), of "fst af"]
    show "(fst x \<notin> nodes_inside_sync_context af)
        = (\<not> crosses_sync_def (snd af) (drop (length (fst af)) (fst x)))"
      by (simp add: p(1))
  qed
  then show "check_tree rules path tree =
     concat (map (\<lambda>af. concat (map (matches_of rules path af)
                    (filter (\<lambda>x. \<not> crosses_sync_def (snd af) (drop (length (fst af)) (fst x)))
                       (walk af))))
                 (collect_async_funcs ([], tree)))"
    by (simp add: check_tree_eq)
next
  have "check_tree RULES ''helper.py'' sync_helper_tree = []"
    using sync_helper_count by simp
  then show "check_file demo_world ''helper.py'' = Inr ([], [])"
    by (simp add: check_file_def read_helper str_path_demo parse_helper)
qed

text \<open>
  C4. Claimed: the number of findings is the number of pairs of a non-excluded node and a
  rule that matches it. In the nested example one node and one rule match, and there are
  two findings.
\<close>

theorem findings_exceed_matched_pairs:
  "length (check_tree RULES ''nested.py'' nested_async_tree) = 2
   \<and> length (matched_pairs RULES nested_async_tree) = 1"
proof -
  have "length (map shown (check_tree RULES ''nested.py'' nested_async_tree)) = 2"
    by (simp only: nested_async_shown) simp
  then show ?thesis by (simp add: nested_async_pairs)
qed

text \<open>
  C4 as the code has it: the findings are, one for one, the reports: the triples of an
  async function, a node in it outside every synchronous function or class definition
  nested in it, and a rule that matches the node. A node counts once for each async
  function that reaches it, and once more for each rule that matches it; each finding
  carries the position of its node.
\<close>

theorem findings_count_reports:
  "length (check_tree rules path tree) = card (reported rules tree)
   \<and> mset (check_tree rules path tree)
       = image_mset (finding_at rules path tree) (mset_set (reported rules tree))"
proof -
  have "card (reported rules tree) = length (trace rules tree)"
    using distinct_card [OF distinct_trace [of rules tree]] by (simp add: set_trace)
  moreover have "mset_set (reported rules tree) = mset (trace rules tree)"
    using mset_set_set [OF distinct_trace [of rules tree]] by (simp add: set_trace)
  ultimately show ?thesis by (simp add: check_tree_trace)
qed

text \<open>
  C5. Every finding has the line and column of a node that its rule matches, and the
  name of an async function definition of the tree whose subtree contains that node.
\<close>

theorem finding_position_and_function:
  assumes "f \<in> set (check_tree rules path tree)"
  shows "\<exists>a p af nd.
           subtree_at tree a = Some af \<and> is_AsyncFunctionDef af
           \<and> subtree_at af p = Some nd \<and> subtree_at tree (a @ p) = Some nd
           \<and> rule f \<in> set rules \<and> matcher (rule f) nd
           \<and> line f = lineno nd \<and> col f = col_offset nd
           \<and> async_func f = name af \<and> file_path f = path"
proof -
  from assms obtain r where r: "r \<in> reported rules tree" and f: "f = finding_at rules path tree r"
    by (auto simp: check_tree_trace set_trace)
  from r obtain a p i af nd where r': "r = (a, a @ p, i)"
    and af: "subtree_at tree a = Some af" "is_AsyncFunctionDef af"
    and nd: "subtree_at af p = Some nd"
    and i: "i < length rules" "matcher (rules ! i) nd"
    by (auto simp: reported_def)
  have n: "subtree_at tree (a @ p) = Some nd"
    using af(1) nd by (simp add: subtree_at_append)
  have "rule f \<in> set rules \<and> matcher (rule f) nd \<and> line f = lineno nd \<and> col f = col_offset nd
      \<and> async_func f = name af \<and> file_path f = path"
    using i af(1) n by (simp add: f r' finding_at_def)
  with af nd n show ?thesis by blast
qed

theorem finding_position_and_function_witness:
  "check_tree RULES ''nested.py'' nested_async_tree ! 1
     \<in> set (check_tree RULES ''nested.py'' nested_async_tree)
   \<and> (\<exists>a p af nd.
           subtree_at nested_async_tree a = Some af \<and> is_AsyncFunctionDef af
           \<and> subtree_at af p = Some nd \<and> subtree_at nested_async_tree (a @ p) = Some nd
           \<and> rule (check_tree RULES ''nested.py'' nested_async_tree ! 1) \<in> set RULES
           \<and> matcher (rule (check_tree RULES ''nested.py'' nested_async_tree ! 1)) nd
           \<and> line (check_tree RULES ''nested.py'' nested_async_tree ! 1) = lineno nd
           \<and> col (check_tree RULES ''nested.py'' nested_async_tree ! 1) = col_offset nd
           \<and> async_func (check_tree RULES ''nested.py'' nested_async_tree ! 1) = name af
           \<and> file_path (check_tree RULES ''nested.py'' nested_async_tree ! 1) = ''nested.py'')"
proof -
  have "length (map shown (check_tree RULES ''nested.py'' nested_async_tree)) = 2"
    by (simp only: nested_async_shown) simp
  then have m: "check_tree RULES ''nested.py'' nested_async_tree ! 1
     \<in> set (check_tree RULES ''nested.py'' nested_async_tree)"
    by simp
  from finding_position_and_function [OF m] m show ?thesis by simp
qed

text \<open>
  C6. A file whose read raises \<^verbatim>\<open>OSError\<close>, or whose text raises \<^verbatim>\<open>SyntaxError\<close> in the
  parser, gives no findings and one line on standard error; the loop goes on with the
  files after it; and naming such a file on the command line changes neither the exit
  status nor the findings nor standard output of the run.
\<close>

theorem read_and_parse_errors_recovered:
  assumes "is_file w f" and "suffix w f = ''.py''"
    and "(\<exists>m. read_text w f Replace = Inl (OSError m))
         \<or> (\<exists>src m. read_text w f Replace = Inr src
                \<and> ast_parse w src (str_path w f) = Inl (SyntaxError m))"
  shows "(\<exists>msg. check_file w f = Inr ([], [msg])
            \<and> (\<forall>rest st. files_loop w (f # rest) st
                            = files_loop w rest (st\<lparr>stderr := stderr st @ [msg]\<rparr>)))
       \<and> map_sum id (\<lambda>(code, st). (code, observed st)) (main w (args\<lparr>paths := ps @ f # qs\<rparr>))
         = map_sum id (\<lambda>(code, st). (code, observed st)) (main w (args\<lparr>paths := ps @ qs\<rparr>))"
proof -
  from assms(3) obtain msg where cf: "check_file w f = Inr ([], [msg])"
    by (auto simp: check_file_def)
  let ?s0 = "\<lparr>all_findings = [], stdout = [], stderr = []\<rparr> :: 'a run"
  have "map_sum id observed (paths_loop w (ps @ f # qs) ?s0)
      = map_sum id observed (paths_loop w (ps @ qs) ?s0)"
  proof (cases "paths_loop w ps ?s0")
    case (Inl e)
    then show ?thesis by (simp add: paths_loop_append)
  next
    case (Inr st)
    have "observed (st\<lparr>stderr := stderr st @ [msg]\<rparr>) = observed st"
      by (simp add: observed_def)
    from paths_loop_observed [OF this, of w qs]
    have "map_sum id observed (paths_loop w (f # qs) st) = map_sum id observed (paths_loop w qs st)"
      by (simp only: paths_loop_recovered [OF assms(1,2) cf])
    moreover have "paths_loop w (ps @ f # qs) ?s0 = paths_loop w (f # qs) st"
      by (simp only: paths_loop_append Inr sum.case)
    moreover have "paths_loop w (ps @ qs) ?s0 = paths_loop w qs st"
      by (simp only: paths_loop_append Inr sum.case)
    ultimately show ?thesis by simp
  qed
  then have "map_sum id (\<lambda>(code, st). (code, observed st)) (main w (args\<lparr>paths := ps @ f # qs\<rparr>))
         = map_sum id (\<lambda>(code, st). (code, observed st)) (main w (args\<lparr>paths := ps @ qs\<rparr>))"
    by (intro main_observed) simp_all
  moreover have "\<forall>rest st. files_loop w (f # rest) st
                            = files_loop w rest (st\<lparr>stderr := stderr st @ [msg]\<rparr>)"
    using cf by simp
  ultimately show ?thesis using cf by blast
qed

theorem read_and_parse_errors_recovered_witness:
  "(is_file demo_world ''locked.py'' \<and> suffix demo_world ''locked.py'' = ''.py''
    \<and> read_text demo_world ''locked.py'' Replace = Inl (OSError ''[Errno 13] Permission denied'')
    \<and> (\<exists>msg. check_file demo_world ''locked.py'' = Inr ([], [msg])
             \<and> (\<forall>rest st. files_loop demo_world (''locked.py'' # rest) st
                             = files_loop demo_world rest (st\<lparr>stderr := stderr st @ [msg]\<rparr>)))
    \<and> map_sum id (\<lambda>(code, st). (code, observed st))
          (main demo_world \<lparr>paths = [''locked.py'', ''branch.py''], exit_zero = False, summary = False\<rparr>)
        = map_sum id (\<lambda>(code, st). (code, observed st))
          (main demo_world \<lparr>paths = [''branch.py''], exit_zero = False, summary = False\<rparr>))
   \<and> (is_file demo_world ''broken.py'' \<and> suffix demo_world ''broken.py'' = ''.py''
    \<and> read_text demo_world ''broken.py'' Replace = Inr (map of_char ''def (:'')
    \<and> ast_parse demo_world (map of_char ''def (:'') (str_path demo_world ''broken.py'')
        = Inl (SyntaxError ''invalid syntax'')
    \<and> (\<exists>msg. check_file demo_world ''broken.py'' = Inr ([], [msg])
             \<and> (\<forall>rest st. files_loop demo_world (''broken.py'' # rest) st
                             = files_loop demo_world rest (st\<lparr>stderr := stderr st @ [msg]\<rparr>)))
    \<and> map_sum id (\<lambda>(code, st). (code, observed st))
          (main demo_world \<lparr>paths = [''branch.py'', ''broken.py''], exit_zero = True, summary = True\<rparr>)
        = map_sum id (\<lambda>(code, st). (code, observed st))
          (main demo_world \<lparr>paths = [''branch.py''], exit_zero = True, summary = True\<rparr>))"
proof
  have 1: "is_file demo_world ''locked.py''" and 2: "suffix demo_world ''locked.py'' = ''.py''"
    by (simp_all add: demo_world_def)
  have 3: "(\<exists>m. read_text demo_world ''locked.py'' Replace = Inl (OSError m))
         \<or> (\<exists>src m. read_text demo_world ''locked.py'' Replace = Inr src
                \<and> ast_parse demo_world src (str_path demo_world ''locked.py'') = Inl (SyntaxError m))"
    by (simp add: read_locked)
  from read_and_parse_errors_recovered [OF 1 2 3,
      where args = "\<lparr>paths = [], exit_zero = False, summary = False\<rparr>"
        and ps = "[]" and qs = "[''branch.py'']"]
  show "is_file demo_world ''locked.py'' \<and> suffix demo_world ''locked.py'' = ''.py''
    \<and> read_text demo_world ''locked.py'' Replace = Inl (OSError ''[Errno 13] Permission denied'')
    \<and> (\<exists>msg. check_file demo_world ''locked.py'' = Inr ([], [msg])
             \<and> (\<forall>rest st. files_loop demo_world (''locked.py'' # rest) st
                             = files_loop demo_world rest (st\<lparr>stderr := stderr st @ [msg]\<rparr>)))
    \<and> map_sum id (\<lambda>(code, st). (code, observed st))
          (main demo_world \<lparr>paths = [''locked.py'', ''branch.py''], exit_zero = False, summary = False\<rparr>)
        = map_sum id (\<lambda>(code, st). (code, observed st))
          (main demo_world \<lparr>paths = [''branch.py''], exit_zero = False, summary = False\<rparr>)"
    using 1 2 by (simp add: read_locked)
next
  have 1: "is_file demo_world ''broken.py''" and 2: "suffix demo_world ''broken.py'' = ''.py''"
    by (simp_all add: demo_world_def)
  have p: "ast_parse demo_world (map of_char ''def (:'') (str_path demo_world ''broken.py'')
        = Inl (SyntaxError ''invalid syntax'')"
    by (rule parse_broken)
  have 3: "(\<exists>m. read_text demo_world ''broken.py'' Replace = Inl (OSError m))
         \<or> (\<exists>src m. read_text demo_world ''broken.py'' Replace = Inr src
                \<and> ast_parse demo_world src (str_path demo_world ''broken.py'') = Inl (SyntaxError m))"
    using read_broken p by blast
  from read_and_parse_errors_recovered [OF 1 2 3,
      where args = "\<lparr>paths = [], exit_zero = True, summary = True\<rparr>"
        and ps = "[''branch.py'']" and qs = "[]"]
  have "(\<exists>msg. check_file demo_world ''broken.py'' = Inr ([], [msg])
             \<and> (\<forall>rest st. files_loop demo_world (''broken.py'' # rest) st
                             = files_loop demo_world rest (st\<lparr>stderr := stderr st @ [msg]\<rparr>)))
    \<and> map_sum id (\<lambda>(code, st). (code, observed st))
          (main demo_world \<lparr>paths = [''branch.py'', ''broken.py''], exit_zero = True, summary = True\<rparr>)
        = map_sum id (\<lambda>(code, st). (code, observed st))
          (main demo_world \<lparr>paths = [''branch.py''], exit_zero = True, summary = True\<rparr>)"
    by simp
  then have c1: "\<exists>msg. check_file demo_world ''broken.py'' = Inr ([], [msg])
             \<and> (\<forall>rest st. files_loop demo_world (''broken.py'' # rest) st
                             = files_loop demo_world rest (st\<lparr>stderr := stderr st @ [msg]\<rparr>))"
    and c2: "map_sum id (\<lambda>(code, st). (code, observed st))
          (main demo_world \<lparr>paths = [''branch.py'', ''broken.py''], exit_zero = True, summary = True\<rparr>)
        = map_sum id (\<lambda>(code, st). (code, observed st))
          (main demo_world \<lparr>paths = [''branch.py''], exit_zero = True, summary = True\<rparr>)"
    by (rule conjunct1, rule conjunct2)
  from 1 2 read_broken p c1 c2
  show "is_file demo_world ''broken.py'' \<and> suffix demo_world ''broken.py'' = ''.py''
    \<and> read_text demo_world ''broken.py'' Replace = Inr (map of_char ''def (:'')
    \<and> ast_parse demo_world (map of_char ''def (:'') (str_path demo_world ''broken.py'')
        = Inl (SyntaxError ''invalid syntax'')
    \<and> (\<exists>msg. check_file demo_world ''broken.py'' = Inr ([], [msg])
             \<and> (\<forall>rest st. files_loop demo_world (''broken.py'' # rest) st
                             = files_loop demo_world rest (st\<lparr>stderr := stderr st @ [msg]\<rparr>)))
    \<and> map_sum id (\<lambda>(code, st). (code, observed st))
          (main demo_world \<lparr>paths = [''branch.py'', ''broken.py''], exit_zero = True, summary = True\<rparr>)
        = map_sum id (\<lambda>(code, st). (code, observed st))
          (main demo_world \<lparr>paths = [''branch.py''], exit_zero = True, summary = True\<rparr>)"
    by (intro conjI)
qed

text \<open>
  C7. When \<^verbatim>\<open>main\<close> returns, the exit status is 0 exactly when the run has no findings or
  \<^verbatim>\<open>--exit-zero\<close> is set, and 1 exactly when it has findings and \<^verbatim>\<open>--exit-zero\<close> is not
  set; the findings of the run are those of all its files. \<^verbatim>\<open>main\<close> does return when the
  parser raises nothing but \<^verbatim>\<open>SyntaxError\<close>.
\<close>

theorem exit_status:
  "(main w args = Inr (code, st) \<longrightarrow>
      all_findings st = concat (map (findings_of w) (files_of w (paths args)))
      \<and> (code = 0 \<longleftrightarrow> all_findings st = [] \<or> exit_zero args)
      \<and> (code = 1 \<longleftrightarrow> all_findings st \<noteq> [] \<and> \<not> exit_zero args))
   \<and> ((\<forall>src n e. ast_parse w src n = Inl e \<longrightarrow> (\<exists>m. e = SyntaxError m)) \<longrightarrow>
        (\<exists>code st. main w args = Inr (code, st)))"
proof (intro conjI impI)
  let ?s0 = "\<lparr>all_findings = [], stdout = [], stderr = []\<rparr> :: 'a run"
  assume m: "main w args = Inr (code, st)"
  then obtain st0 where p: "paths_loop w (paths args) ?s0 = Inr st0"
    and st: "all_findings st = all_findings st0"
    and code: "code = (if all_findings st0 \<noteq> [] \<and> \<not> exit_zero args then 1 else 0)"
    by (auto simp: main_def Let_def split: sum.splits if_splits)
  from paths_loop_Inr [OF p] st
  show "all_findings st = concat (map (findings_of w) (files_of w (paths args)))" by simp
  from code st show "code = 0 \<longleftrightarrow> all_findings st = [] \<or> exit_zero args" by auto
  from code st show "code = 1 \<longleftrightarrow> all_findings st \<noteq> [] \<and> \<not> exit_zero args" by auto
next
  let ?s0 = "\<lparr>all_findings = [], stdout = [], stderr = []\<rparr> :: 'a run"
  assume "\<forall>src n e. ast_parse w src n = Inl e \<longrightarrow> (\<exists>m. e = SyntaxError m)"
  then have ok: "\<And>src n e. ast_parse w src n = Inl e \<Longrightarrow> \<exists>m. e = SyntaxError m" by blast
  have "\<exists>st0. paths_loop w (paths args) ?s0 = Inr st0"
    by (rule paths_loop_total) (rule ok)
  then obtain st0 where p: "paths_loop w (paths args) ?s0 = Inr st0" by blast
  have "rule x \<in> set RULES" if "x \<in> set (all_findings st0)" for x
    using that paths_loop_Inr [OF p] by (auto dest: findings_of_rules)
  then have "\<exists>ls. print_summary w (all_findings st0) = Inr ls"
    by (rule print_summary_total)
  then obtain ls where "print_summary w (all_findings st0) = Inr ls" by blast
  with p show "\<exists>code st. main w args = Inr (code, st)"
    by (simp add: main_def Let_def)
qed

theorem exit_status_witness:
  "\<exists>code st.
     main demo_world \<lparr>paths = [''locked.py'', ''branch.py''], exit_zero = False, summary = False\<rparr>
       = Inr (code, st)
     \<and> code = 1
     \<and> all_findings st
         = concat (map (findings_of demo_world)
             (files_of demo_world [''locked.py'', ''branch.py'']))
     \<and> (code = 0 \<longleftrightarrow> all_findings st = [] \<or> False)
     \<and> (code = 1 \<longleftrightarrow> all_findings st \<noteq> [] \<and> \<not> False)"
proof -
  let ?args = "\<lparr>paths = [''locked.py'', ''branch.py''], exit_zero = False, summary = False\<rparr>"
  have ok: "\<forall>src n e. ast_parse demo_world src n = Inl e \<longrightarrow> (\<exists>m. e = SyntaxError m)"
    using parse_only_syntax_errors by blast
  with exit_status [of demo_world ?args] obtain code st
    where m: "main demo_world ?args = Inr (code, st)" by blast
  with main_branch have c: "code = 1" by simp
  from exit_status [of demo_world ?args code st] m
  have "all_findings st = concat (map (findings_of demo_world) (files_of demo_world (paths ?args)))
      \<and> (code = 0 \<longleftrightarrow> all_findings st = [] \<or> exit_zero ?args)
      \<and> (code = 1 \<longleftrightarrow> all_findings st \<noteq> [] \<and> \<not> exit_zero ?args)"
    by blast
  with m c show ?thesis by simp
qed

text \<open>
  C8. Claimed: the lines of the report are in file order and, within a file, in ascending
  line order. The findings of a file are printed in the order the loops meet them, and
  the walk is breadth first: in
  \<^verbatim>\<open>async def f():\<close>\<^verbatim>\<open>    if x:\<close>\<^verbatim>\<open>        time.sleep(1)\<close>\<^verbatim>\<open>    time.sleep(2)\<close>
  the call of line 4 is met, and reported, before the call of line 3.
\<close>

theorem report_not_in_line_order:
  "main demo_world \<lparr>paths = [''locked.py'', ''branch.py''], exit_zero = False, summary = False\<rparr> =
     Inr (1, \<lparr>all_findings = check_tree RULES ''branch.py'' branch_tree,
              stdout =
                [''branch.py:4:4: [ASYNC005] In 'async def f': time.sleep() blocks the event loop'',
                 ''  Fix: Use 'await asyncio.sleep(seconds)' instead'',
                 ''branch.py:3:8: [ASYNC005] In 'async def f': time.sleep() blocks the event loop'',
                 ''  Fix: Use 'await asyncio.sleep(seconds)' instead''],
              stderr = [''ERROR: Cannot read locked.py: [Errno 13] Permission denied'']\<rparr>)"
  by (rule main_branch)

text \<open>
  C8 as the code has it: standard output starts with two lines for each finding of the
  run, the diagnostic line and the remediation line, in the order of the list of
  findings; that list holds the findings of the files in the order the files are
  processed; and the findings of one file are in the order in which the loops of
  \<^verbatim>\<open>check_file\<close> meet their reports: async functions in the order of the walk of the
  tree, nodes in the order of the walk of the function, rules in the order of the
  registry.
\<close>

theorem report_in_production_order:
  "(main w args = Inr (code, st) \<longrightarrow>
      (\<exists>rest. stdout st
               = concat (map (\<lambda>f. [diagnostic_line w f, fix_line f]) (all_findings st)) @ rest)
      \<and> all_findings st = concat (map (findings_of w) (files_of w (paths args))))
   \<and> check_tree rules path tree = map (finding_at rules path tree) (trace rules tree)"
proof (intro conjI impI)
  let ?s0 = "\<lparr>all_findings = [], stdout = [], stderr = []\<rparr> :: 'a run"
  assume m: "main w args = Inr (code, st)"
  then obtain st0 where p: "paths_loop w (paths args) ?s0 = Inr st0"
    and st: "all_findings st = all_findings st0"
    and out: "\<exists>rest. stdout st = stdout st0 @ rest"
    by (auto simp: main_def Let_def split: sum.splits if_splits)
  from paths_loop_Inr [OF p] st
  show "all_findings st = concat (map (findings_of w) (files_of w (paths args)))" by simp
  from paths_loop_Inr [OF p] have "stdout st0 = print_findings w (all_findings st0)" by simp
  with out st
  show "\<exists>rest. stdout st
               = concat (map (\<lambda>f. [diagnostic_line w f, fix_line f]) (all_findings st)) @ rest"
    by (simp add: print_findings_concat)
next
  show "check_tree rules path tree = map (finding_at rules path tree) (trace rules tree)"
    by (rule check_tree_trace)
qed

theorem report_in_production_order_witness:
  "\<exists>code st.
     main demo_world \<lparr>paths = [''locked.py'', ''branch.py''], exit_zero = False, summary = False\<rparr>
       = Inr (code, st)
     \<and> (\<exists>rest. stdout st
               = concat (map (\<lambda>f. [diagnostic_line demo_world f, fix_line f]) (all_findings st)) @ rest)
     \<and> all_findings st
         = concat (map (findings_of demo_world) (files_of demo_world
             (paths \<lparr>paths = [''locked.py'', ''branch.py''], exit_zero = False, summary = False\<rparr>)))"
proof -
  let ?args = "\<lparr>paths = [''locked.py'', ''branch.py''], exit_zero = False, summary = False\<rparr>"
  have "\<exists>code st. main demo_world ?args = Inr (code, st)"
    by (rule exI, rule exI, rule main_branch)
  then obtain code st where m: "main demo_world ?args = Inr (code, st)" by blast
  from report_in_production_order [of demo_world ?args code st, THEN conjunct1, THEN mp, OF m]
  have "(\<exists>rest. stdout st
               = concat (map (\<lambda>f. [diagnostic_line demo_world f, fix_line f]) (all_findings st)) @ rest)
      \<and> all_findings st
          = concat (map (findings_of demo_world) (files_of demo_world (paths ?args)))" .
  with m show ?thesis by blast
qed

text \<open>
  C9. Every call whose callee is an attribute access named \<^verbatim>\<open>read\<close>, \<^verbatim>\<open>write\<close> or
  \<^verbatim>\<open>readlines\<close> is matched by \<^verbatim>\<open>_is_file_rw\<close>, the matcher of rule ASYNC009, whatever
  expression the attribute is taken from: the receiver is never inspected.
\<close>

theorem file_rw_ignores_receiver:
  assumes "a \<in> {''read'', ''write'', ''readlines''}"
  shows "is_file_rw (Call l c (Attribute l' c' receiver a) as)
       \<and> id_rule (RULES ! 8) = ''ASYNC009''
       \<and> matcher (RULES ! 8) (Call l c (Attribute l' c' receiver a) as)"
  using assms by (simp add: is_file_rw_def RULES_def)

theorem file_rw_ignores_receiver_witness:
  "''read'' \<in> {''read'', ''write'', ''readlines''}
   \<and> is_file_rw (Call 5 10 (Attribute 5 10 (Call 5 10 (Name 5 10 ''reader'') []) ''read'') [])
   \<and> id_rule (RULES ! 8) = ''ASYNC009''
   \<and> matcher (RULES ! 8) (Call 5 10 (Attribute 5 10 (Call 5 10 (Name 5 10 ''reader'') []) ''read'') [])"
  using file_rw_ignores_receiver
    [of "''read''" 5 10 5 10 "Call 5 10 (Name 5 10 ''reader'') []" "[]"]
  by simp

text \<open>
  C10. Decoding with \<^verbatim>\<open>errors="replace"\<close> succeeds on every sequence of bytes, so reading
  a file fails only with the \<^verbatim>\<open>OSError\<close> of the file system; a file whose bytes were
  read is decoded and handed to the parser, and \<^verbatim>\<open>check_file\<close> goes on from the decoded
  text.
\<close>

theorem undecodable_bytes_never_fail:
  "(\<exists>t. utf8_decode Replace bs = Inr t)
   \<and> (read_text w path Replace = Inl e \<longleftrightarrow> (\<exists>m. read_bytes w path = Inl m \<and> e = OSError m))
   \<and> (read_bytes w path = Inr bs \<longrightarrow>
        (\<exists>t. utf8_decode Replace bs = Inr t
            \<and> read_text w path Replace = Inr (universal_newlines t)
            \<and> check_file w path =
                (case ast_parse w (universal_newlines t) (str_path w path) of
                   Inl (SyntaxError exc) \<Rightarrow>
                     Inr ([], [''ERROR: Syntax error in '' @ str_path w path @ '': '' @ exc])
                 | Inl e \<Rightarrow> Inl e
                 | Inr tree \<Rightarrow> Inr (check_tree RULES path tree, []))))"
proof (intro conjI impI)
  show "\<exists>t. utf8_decode Replace bs = Inr t" by (rule utf8_decode_replace_total)
next
  show "read_text w path Replace = Inl e \<longleftrightarrow> (\<exists>m. read_bytes w path = Inl m \<and> e = OSError m)"
    using read_text_replace_cases [of w path] by auto
next
  assume "read_bytes w path = Inr bs"
  moreover obtain t where "utf8_decode Replace bs = Inr t"
    using utf8_decode_replace_total by blast
  ultimately show "\<exists>t. utf8_decode Replace bs = Inr t
            \<and> read_text w path Replace = Inr (universal_newlines t)
            \<and> check_file w path =
                (case ast_parse w (universal_newlines t) (str_path w path) of
                   Inl (SyntaxError exc) \<Rightarrow>
                     Inr ([], [''ERROR: Syntax error in '' @ str_path w path @ '': '' @ exc])
                 | Inl e \<Rightarrow> Inl e
                 | Inr tree \<Rightarrow> Inr (check_tree RULES path tree, []))"
    by (simp add: read_text_def check_file_def)
qed

theorem undecodable_bytes_never_fail_witness:
  "read_bytes demo_world ''latin1.py'' = Inr latin1_bytes
   \<and> utf8_decode Strict latin1_bytes = Inl UnicodeDecodeError
   \<and> read_text demo_world ''latin1.py'' Replace = Inr latin1_decoded
   \<and> map shown (findings_of demo_world ''latin1.py'') = [(''latin1.py'', 3, 4, ''f'', ''ASYNC006'')]
   \<and> (\<exists>t. utf8_decode Replace latin1_bytes = Inr t
          \<and> read_text demo_world ''latin1.py'' Replace = Inr (universal_newlines t)
          \<and> check_file demo_world ''latin1.py'' =
               (case ast_parse demo_world (universal_newlines t) (str_path demo_world ''latin1.py'') of
                  Inl (SyntaxError exc) \<Rightarrow>
                    Inr ([], [''ERROR: Syntax error in '' @ str_path demo_world ''latin1.py'' @ '': '' @ exc])
                | Inl e \<Rightarrow> Inl e
                | Inr tree \<Rightarrow> Inr (check_tree RULES ''latin1.py'' tree, [])))"
  using undecodable_bytes_never_fail [of latin1_bytes demo_world "''latin1.py''"]
    read_bytes_latin1 decode_latin1_strict read_latin1 findings_latin1
  by blast

end
